theory Spec2Isabelle
  imports Main
begin

section \<open>Values and errors\<close>

text \<open>
  The values that travel between entity instances, predicate fragments and the backing
  engine. \<open>Adaptable w\<close> is an object exposing \<^verbatim>\<open>__sql_adapter__\<close>, whose call
  returns \<open>w\<close>; every other value has no adapter. Floats, dates and timestamps take no
  part in the properties below and are left out.
\<close>

datatype val = NoneV | IntV int | TextV string | Adaptable val

text \<open>The exceptions of the Python source, as values.\<close>

datatype error = IndexError | TypeError | KeyError | EngineError | ListError

section \<open>Query: the predicate and ordering builder\<close>

text \<open>
  A predicate fragment is the pair \<^verbatim>\<open>(text, values)\<close>. \<^verbatim>\<open>ChainExprs\<close> receives a
  tuple of whatever its callers were given: predicate fragments from \<^verbatim>\<open>And\<close> and
  \<^verbatim>\<open>Or\<close>, and the plain strings built by \<^verbatim>\<open>OrderAscending\<close> and
  \<^verbatim>\<open>OrderDescending\<close> from \<^verbatim>\<open>OrderChain\<close>.
\<close>

type_synonym fragment = "string \<times> val list"

datatype expr = Fragment fragment | OrderText string

definition Equals :: "string \<Rightarrow> val \<Rightarrow> fragment" where
  "Equals var_name v = (var_name @ '' = ?'', [v])"

definition NotEquals :: "string \<Rightarrow> val \<Rightarrow> fragment" where
  "NotEquals var_name v = (var_name @ '' != ?'', [v])"

definition LessThan :: "string \<Rightarrow> val \<Rightarrow> fragment" where
  "LessThan var_name v = (var_name @ '' < ?'', [v])"

definition LessThanEquals :: "string \<Rightarrow> val \<Rightarrow> fragment" where
  "LessThanEquals var_name v = (var_name @ '' <= ?'', [v])"

definition GreaterThan :: "string \<Rightarrow> val \<Rightarrow> fragment" where
  "GreaterThan var_name v = (var_name @ '' > ?'', [v])"

definition GreaterThanEquals :: "string \<Rightarrow> val \<Rightarrow> fragment" where
  "GreaterThanEquals var_name v = (var_name @ '' >= ?'', [v])"

definition Between :: "string \<Rightarrow> val \<Rightarrow> val \<Rightarrow> fragment" where
  "Between var_name val1 val2 = (var_name @ '' between ? and ?'', [val1, val2])"

definition Like :: "string \<Rightarrow> val \<Rightarrow> fragment" where
  "Like var_name pattern = (var_name @ '' like ?'', [pattern])"

definition Not :: "fragment \<Rightarrow> fragment" where
  "Not expr = (''not ('' @ fst expr @ '')'', snd expr)"

definition OrderAscending :: "string \<Rightarrow> string" where
  "OrderAscending v = v @ '' asc''"

definition OrderDescending :: "string \<Rightarrow> string" where
  "OrderDescending v = v @ '' desc''"

text \<open>
  Python subscription \<^verbatim>\<open>xs[i]\<close> on a tuple, list or string: a negative index counts
  from the end, and an index outside the sequence raises IndexError.
\<close>

definition subscript :: "'a list \<Rightarrow> int \<Rightarrow> error + 'a" where
  "subscript xs i =
     (if 0 \<le> i \<and> i < int (length xs) then Inr (xs ! nat i)
      else if i < 0 \<and> - i \<le> int (length xs) then Inr (xs ! nat (int (length xs) + i))
      else Inl IndexError)"

text \<open>
  \<^verbatim>\<open>expr[0]\<close> as it is formatted into the query text: the text of a fragment, the
  first character of a plain string.
\<close>

definition expr_text :: "expr \<Rightarrow> error + string" where
  "expr_text e =
     (case e of
        Fragment f \<Rightarrow> Inr (fst f)
      | OrderText s \<Rightarrow> (case subscript s 0 of Inl err \<Rightarrow> Inl err | Inr c \<Rightarrow> Inr [c]))"

text \<open>
  \<^verbatim>\<open>val_tup += expr[1]\<close>: the values of a fragment are appended; the second
  character of a plain string is a string, and adding a string to a tuple raises TypeError.
\<close>

definition add_values :: "val list \<Rightarrow> expr \<Rightarrow> error + val list" where
  "add_values val_tup e =
     (case e of
        Fragment f \<Rightarrow> Inr (val_tup @ snd f)
      | OrderText s \<Rightarrow> (case subscript s 1 of Inl err \<Rightarrow> Inl err | Inr c \<Rightarrow> Inl TypeError))"

text \<open>The body of the \<^verbatim>\<open>for i in range(expr_range)\<close> loop, over the elements it visits.\<close>

fun chain_loop :: "expr list \<Rightarrow> string \<Rightarrow> fragment \<Rightarrow> error + fragment" where
  "chain_loop [] chain_str acc = Inr acc"
| "chain_loop (e # es) chain_str acc =
     (case expr_text e of
        Inl err \<Rightarrow> Inl err
      | Inr t \<Rightarrow>
         (case add_values (snd acc) e of
            Inl err \<Rightarrow> Inl err
          | Inr vs \<Rightarrow> chain_loop es chain_str (fst acc @ ''('' @ t @ '')'' @ chain_str, vs)))"

definition ChainExprs :: "expr list \<Rightarrow> string \<Rightarrow> error + fragment" where
  "ChainExprs exprs chain_str =
     (let expr_range = int (length exprs) - 1 in
      case chain_loop (take (nat expr_range) exprs) chain_str ('''', []) of
        Inl err \<Rightarrow> Inl err
      | Inr acc \<Rightarrow>
         (case subscript exprs expr_range of
            Inl err \<Rightarrow> Inl err
          | Inr e \<Rightarrow>
             (case expr_text e of
                Inl err \<Rightarrow> Inl err
              | Inr t \<Rightarrow>
                 (case add_values (snd acc) e of
                    Inl err \<Rightarrow> Inl err
                  | Inr vs \<Rightarrow> Inr (fst acc @ ''('' @ t @ '')'', vs)))))"

definition And :: "expr list \<Rightarrow> error + fragment" where
  "And exprs = ChainExprs exprs '' and ''"

definition Or :: "expr list \<Rightarrow> error + fragment" where
  "Or exprs = ChainExprs exprs '' or ''"

definition OrderChain :: "expr list \<Rightarrow> error + fragment" where
  "OrderChain exprs = ChainExprs exprs '', ''"

text \<open>
  The composition as the specification words it: every sub-fragment in parentheses, the
  connective between neighbours, the values concatenated from left to right.
\<close>

fun joined_text :: "string \<Rightarrow> string list \<Rightarrow> string" where
  "joined_text c [] = ''''"
| "joined_text c [t] = ''('' @ t @ '')''"
| "joined_text c (t # u # ts) = ''('' @ t @ '')'' @ c @ joined_text c (u # ts)"

definition composed :: "string \<Rightarrow> fragment list \<Rightarrow> fragment" where
  "composed c fs = (joined_text c (map fst fs), concat (map snd fs))"

section \<open>Entity kinds, instances and the store\<close>

text \<open>
  A registered kind, as \<^verbatim>\<open>SQL\<close> reads it: its \<^verbatim>\<open>__name__\<close>,
  \<^verbatim>\<open>__tablename__\<close>, \<^verbatim>\<open>__sql_columns__\<close> (name and storage type),
  \<^verbatim>\<open>__immutable__\<close> and the names of its \<^verbatim>\<open>__annotations__\<close>. The last three
  fields say what the constructor call \<^verbatim>\<open>data_class()\<close> produces.
\<close>

record data_class =
  dc_name :: string
  tablename :: string
  sql_columns :: "(string \<times> string) list"
  immutable :: bool
  annotations :: "string list"
  init_dict :: "string \<rightharpoonup> val"
  init_references :: "string \<rightharpoonup> val"
  init_lists :: "bool list"

text \<open>
  An entity instance: its class, its \<^verbatim>\<open>__dict__\<close> (the primary key is the
  attribute \<^verbatim>\<open>dbid\<close> there) and the helper objects it exposes. The helper
  types are not part of \<^verbatim>\<open>sql.py\<close>; the model keeps what the contract of the
  specification (section 6) says of them. \<open>references\<close> holds, for every field that
  has a reference object, the raw value last handed to its conversion routine. \<open>lists\<close>
  has one entry per child list of \<^verbatim>\<open>__get_lists__()\<close>, \<open>True\<close> when persisting that
  list returns and \<open>False\<close> when it raises. \<open>lists_from_db\<close> is set by
  \<^verbatim>\<open>__mark_lists_from_db__\<close>.
\<close>

record item =
  item_class :: data_class
  idict :: "string \<rightharpoonup> val"
  references :: "string \<rightharpoonup> val"
  lists :: "bool list"
  lists_from_db :: bool

text \<open>
  A table of the backing engine, of the shape \<^verbatim>\<open>CreateTable\<close> gives it: the primary
  key column \<^verbatim>\<open>dbid\<close> first, then the named columns. A stored row is the list of
  its values, the key first.
\<close>

record table =
  col_names :: "string list"
  rows :: "val list list"

text \<open>What the connection and the child lists were asked to do, in call order.\<close>

datatype event =
    Execute string "val list"
  | ExecuteMany string "val list list"
  | Commit
  | ListAdd nat nat
  | ListUpdate nat nat

text \<open>
  The state the operations act on: the objects by address (identity is the address), the
  identity cache \<^verbatim>\<open>self.cache\<close>, the tables behind the connection, the calls made so
  far, the printed lines and the registry \<^verbatim>\<open>SQL.TYPE_DEFAULT\<close>.
\<close>

record state =
  heap :: "item list"
  cache :: "string \<rightharpoonup> (val \<rightharpoonup> nat)"
  tables :: "string \<rightharpoonup> table"
  trace :: "event list"
  stdout :: "string list"
  TYPE_DEFAULT :: "string \<rightharpoonup> val"

type_synonym row = "(string \<times> val) list"

type_synonym 'a action = "state \<Rightarrow> (error + 'a) \<times> state"

definition succeed :: "'a \<Rightarrow> 'a action" where
  "succeed x s = (Inr x, s)"

definition raise :: "error \<Rightarrow> 'a action" where
  "raise e s = (Inl e, s)"

text \<open>Sequencing: an exception ends the operation and keeps the state reached so far.\<close>

definition andthen :: "'a action \<Rightarrow> ('a \<Rightarrow> 'b action) \<Rightarrow> 'b action" where
  "andthen m f s = (case m s of (Inl e, s') \<Rightarrow> (Inl e, s') | (Inr x, s') \<Rightarrow> f x s')"

definition lift :: "error + 'a \<Rightarrow> 'a action" where
  "lift r s = (case r of Inl e \<Rightarrow> (Inl e, s) | Inr x \<Rightarrow> (Inr x, s))"

definition log :: "event \<Rightarrow> unit action" where
  "log e s = (Inr (), s\<lparr>trace := trace s @ [e]\<rparr>)"

definition commit_if :: "bool \<Rightarrow> unit action" where
  "commit_if commit = (if commit then log Commit else succeed ())"

subsection \<open>The backing engine\<close>

text \<open>
  The engine is sqlite3, an external library. Its model covers the statements the store
  issues: a statement on a missing table fails, an insert fails when the number of bound
  values differs from the number of placeholders or of columns or when the key is already
  stored, and otherwise appends the row; an update replaces the named columns of every row
  with the given key. Values are stored and returned as they are bound, and a commit is
  only recorded in the trace.
\<close>

definition select_all :: "string \<Rightarrow> val list list action" where
  "select_all table_name s =
     (case tables s table_name of
        None \<Rightarrow> (Inl EngineError, s)
      | Some t \<Rightarrow> (Inr (rows t), s))"

definition insert_row :: "string \<Rightarrow> nat \<Rightarrow> val list \<Rightarrow> unit action" where
  "insert_row table_name placeholders params s =
     (case tables s table_name of
        None \<Rightarrow> (Inl EngineError, s)
      | Some t \<Rightarrow>
         if placeholders \<noteq> length params \<or> length params \<noteq> Suc (length (col_names t))
            \<or> hd params \<in> set (map hd (rows t))
         then (Inl EngineError, s)
         else (Inr (), s\<lparr>tables := (tables s)(table_name \<mapsto> t\<lparr>rows := rows t @ [params]\<rparr>)\<rparr>))"

text \<open>
  \<^verbatim>\<open>executemany\<close> compiles its statement before it reads the first row of values,
  so a missing table, a wrong number of values for the table or an unknown column is an
  error even when there is no row to bind.
\<close>

definition prepare_insert :: "string \<Rightarrow> nat \<Rightarrow> unit action" where
  "prepare_insert table_name placeholders s =
     (case tables s table_name of
        None \<Rightarrow> (Inl EngineError, s)
      | Some t \<Rightarrow>
         if placeholders \<noteq> Suc (length (col_names t)) then (Inl EngineError, s) else (Inr (), s))"

definition prepare_update :: "string \<Rightarrow> string list \<Rightarrow> unit action" where
  "prepare_update table_name set_names s =
     (case tables s table_name of
        None \<Rightarrow> (Inl EngineError, s)
      | Some t \<Rightarrow>
         if \<not> list_all (\<lambda>c. c \<in> set (col_names t)) set_names then (Inl EngineError, s)
         else (Inr (), s))"

fun insert_rows :: "string \<Rightarrow> nat \<Rightarrow> val list list \<Rightarrow> unit action" where
  "insert_rows table_name placeholders [] s = (Inr (), s)"
| "insert_rows table_name placeholders (params # rest) s =
     (case insert_row table_name placeholders params s of
        (Inl e, s') \<Rightarrow> (Inl e, s')
      | (Inr u, s') \<Rightarrow> insert_rows table_name placeholders rest s')"

definition set_columns :: "string list \<Rightarrow> (string \<times> val) list \<Rightarrow> val list \<Rightarrow> val list" where
  "set_columns names assignments r =
     hd r # map (\<lambda>(c, old). case map_of assignments c of None \<Rightarrow> old | Some v \<Rightarrow> v)
               (zip names (tl r))"

definition update_rows :: "string \<Rightarrow> string list \<Rightarrow> val list \<Rightarrow> unit action" where
  "update_rows table_name set_names params s =
     (case tables s table_name of
        None \<Rightarrow> (Inl EngineError, s)
      | Some t \<Rightarrow>
         if length params \<noteq> Suc (length set_names)
            \<or> \<not> list_all (\<lambda>c. c \<in> set (col_names t)) set_names
         then (Inl EngineError, s)
         else (Inr (), s\<lparr>tables := (tables s)(table_name \<mapsto>
                 t\<lparr>rows := map (\<lambda>r. if hd r = last params \<and> last params \<noteq> NoneV
                                      then set_columns (col_names t) (zip set_names params) r
                                      else r) (rows t)\<rparr>)\<rparr>))"

fun update_rows_many :: "string \<Rightarrow> string list \<Rightarrow> val list list \<Rightarrow> unit action" where
  "update_rows_many table_name set_names [] s = (Inr (), s)"
| "update_rows_many table_name set_names (params # rest) s =
     (case update_rows table_name set_names params s of
        (Inl e, s') \<Rightarrow> (Inl e, s')
      | (Inr u, s') \<Rightarrow> update_rows_many table_name set_names rest s')"

text \<open>A fetched row answers to its column names, as \<^verbatim>\<open>sqlite3.Row\<close> does.\<close>

definition as_row :: "table \<Rightarrow> val list \<Rightarrow> row" where
  "as_row t r = zip (''dbid'' # col_names t) r"

definition select_dbid :: "string \<Rightarrow> val \<Rightarrow> row list action" where
  "select_dbid table_name index s =
     (case tables s table_name of
        None \<Rightarrow> (Inl EngineError, s)
      | Some t \<Rightarrow> (Inr (map (as_row t) (filter (\<lambda>r. hd r = index \<and> index \<noteq> NoneV) (rows t))), s))"

text \<open>
  \<^verbatim>\<open>order by random()\<close>: the engine draws a key for every row and sorts by it;
  \<open>rnd\<close> gives the key drawn for the row at each position.
\<close>

definition select_random :: "string \<Rightarrow> (nat \<Rightarrow> int) \<Rightarrow> nat \<Rightarrow> row list action" where
  "select_random table_name rnd limit s =
     (case tables s table_name of
        None \<Rightarrow> (Inl EngineError, s)
      | Some t \<Rightarrow>
         (Inr (map (as_row t)
                (take limit (map snd (sort_key fst (zip (map rnd [0..<length (rows t)]) (rows t)))))), s))"

subsection \<open>Building the bound values\<close>

definition adapt :: "val \<Rightarrow> val" where
  "adapt v = (case v of Adaptable w \<Rightarrow> w | _ \<Rightarrow> v)"

text \<open>
  The value bound for one column: the instance's attribute, through its adapter when it
  has one, or the default of the storage type (a KeyError when the registry has none).
\<close>

definition column_value :: "(string \<rightharpoonup> val) \<Rightarrow> (string \<rightharpoonup> val) \<Rightarrow> string \<times> string \<Rightarrow> error + val" where
  "column_value defaults d column =
     (case d (fst column) of
        Some var_value \<Rightarrow> Inr (adapt var_value)
      | None \<Rightarrow> (case defaults (snd column) of None \<Rightarrow> Inl KeyError | Some v \<Rightarrow> Inr v))"

fun column_values :: "(string \<rightharpoonup> val) \<Rightarrow> (string \<rightharpoonup> val) \<Rightarrow> (string \<times> string) list \<Rightarrow> error + val list" where
  "column_values defaults d [] = Inr []"
| "column_values defaults d (column # rest) =
     (case column_value defaults d column of
        Inl e \<Rightarrow> Inl e
      | Inr v \<Rightarrow> (case column_values defaults d rest of Inl e \<Rightarrow> Inl e | Inr vs \<Rightarrow> Inr (v # vs)))"

text \<open>The insert statement: \<^verbatim>\<open>(?, \<close>, then \<^verbatim>\<open>?, \<close> for all columns but one, then \<^verbatim>\<open>?)\<close>.\<close>

definition insert_cmd :: "string \<Rightarrow> (string \<times> string) list \<Rightarrow> string" where
  "insert_cmd table_name columns =
     ''insert into '' @ table_name @ '' values (?, ''
       @ concat (replicate (nat (int (length columns) - 1)) ''?, '') @ ''?)''"

definition insert_placeholders :: "(string \<times> string) list \<Rightarrow> nat" where
  "insert_placeholders columns = 1 + nat (int (length columns) - 1) + 1"

text \<open>
  The update statement and its values: all columns but the last in the loop, then
  \<^verbatim>\<open>sql_columns[col_range]\<close>, which raises IndexError when there is no column.
\<close>

definition update_cmd :: "string \<Rightarrow> (string \<times> string) list \<Rightarrow> error + string" where
  "update_cmd table_name columns =
     (let col_range = int (length columns) - 1 in
      case subscript columns col_range of
        Inl e \<Rightarrow> Inl e
      | Inr column \<Rightarrow>
          Inr (''update '' @ table_name @ '' set ''
               @ concat (map (\<lambda>c. fst c @ '' = ?, '') (take (nat col_range) columns))
               @ fst column @ '' = ? where dbid = ?''))"

definition update_values :: "(string \<rightharpoonup> val) \<Rightarrow> (string \<rightharpoonup> val) \<Rightarrow> (string \<times> string) list \<Rightarrow> val \<Rightarrow> error + val list" where
  "update_values defaults d columns dbid =
     (let col_range = int (length columns) - 1 in
      case column_values defaults d (take (nat col_range) columns) of
        Inl e \<Rightarrow> Inl e
      | Inr vs \<Rightarrow>
         (case subscript columns col_range of
            Inl e \<Rightarrow> Inl e
          | Inr column \<Rightarrow>
             (case column_value defaults d column of
                Inl e \<Rightarrow> Inl e
              | Inr v \<Rightarrow> Inr (vs @ [v] @ [dbid]))))"

subsection \<open>Child lists\<close>

fun add_lists_from :: "nat \<Rightarrow> nat \<Rightarrow> bool list \<Rightarrow> unit action" where
  "add_lists_from a k [] s = (Inr (), s)"
| "add_lists_from a k (ok # rest) s =
     (case log (ListAdd a k) s of
        (Inl e, s') \<Rightarrow> (Inl e, s')
      | (Inr u, s') \<Rightarrow> if ok then add_lists_from a (Suc k) rest s' else (Inl ListError, s'))"

fun update_lists_from :: "nat \<Rightarrow> nat \<Rightarrow> bool list \<Rightarrow> unit action" where
  "update_lists_from a k [] s = (Inr (), s)"
| "update_lists_from a k (ok # rest) s =
     (case log (ListUpdate a k) s of
        (Inl e, s') \<Rightarrow> (Inl e, s')
      | (Inr u, s') \<Rightarrow> if ok then update_lists_from a (Suc k) rest s' else (Inl ListError, s'))"

text \<open>\<^verbatim>\<open>for list in item.__get_lists__(): list.__add_to_db__()\<close>\<close>

definition add_lists :: "nat \<Rightarrow> unit action" where
  "add_lists a s = add_lists_from a 0 (lists (heap s ! a)) s"

definition update_lists :: "nat \<Rightarrow> unit action" where
  "update_lists a s = update_lists_from a 0 (lists (heap s ! a)) s"

fun add_lists_each :: "nat list \<Rightarrow> unit action" where
  "add_lists_each [] s = (Inr (), s)"
| "add_lists_each (a # rest) s =
     (case add_lists a s of (Inl e, s') \<Rightarrow> (Inl e, s') | (Inr u, s') \<Rightarrow> add_lists_each rest s')"

fun update_lists_each :: "nat list \<Rightarrow> unit action" where
  "update_lists_each [] s = (Inr (), s)"
| "update_lists_each (a # rest) s =
     (case update_lists a s of (Inl e, s') \<Rightarrow> (Inl e, s') | (Inr u, s') \<Rightarrow> update_lists_each rest s')"

subsection \<open>Writes\<close>

definition TableLength :: "data_class \<Rightarrow> int action" where
  "TableLength data_class =
     andthen (log (Execute (''select * from '' @ tablename data_class) [])) (\<lambda>u.
     andthen (select_all (tablename data_class)) (\<lambda>fetched.
     succeed (int (length fetched))))"

text \<open>\<^verbatim>\<open>item.dbid = v\<close>\<close>

definition set_dbid :: "nat \<Rightarrow> val \<Rightarrow> unit action" where
  "set_dbid a v s =
     (Inr (), s\<lparr>heap := (heap s)[a := (heap s ! a)\<lparr>idict := (idict (heap s ! a))(''dbid'' \<mapsto> v)\<rparr>]\<rparr>)"

text \<open>\<^verbatim>\<open>self.cache[dc_name][dbid] = item\<close>: a KeyError when the kind has no bucket.\<close>

definition cache_store :: "string \<Rightarrow> val \<Rightarrow> nat \<Rightarrow> unit action" where
  "cache_store kind dbid a s =
     (case cache s kind of
        None \<Rightarrow> (Inl KeyError, s)
      | Some bucket \<Rightarrow> (Inr (), s\<lparr>cache := (cache s)(kind \<mapsto> bucket(dbid \<mapsto> a))\<rparr>))"

definition attr_values :: "nat \<Rightarrow> (string \<times> string) list \<Rightarrow> val list action" where
  "attr_values a columns s = lift (column_values (TYPE_DEFAULT s) (idict (heap s ! a)) columns) s"

text \<open>
  An item counts as already stored when its \<^verbatim>\<open>dbid\<close> attribute exists and differs
  from the sentinel \<^verbatim>\<open>-1\<close>. The attribute is looked up in the instance; the kinds of
  the model define no \<^verbatim>\<open>dbid\<close> at class level.
\<close>

definition has_key :: "item \<Rightarrow> bool" where
  "has_key i = (case idict i ''dbid'' of None \<Rightarrow> False | Some d \<Rightarrow> d \<noteq> IntV (- 1))"

text \<open>
  \<^verbatim>\<open>Add\<close> from the assignment of the key on (the item is not stored yet);
  \<open>data_class\<close> is \<^verbatim>\<open>item.__class__\<close>.
\<close>

definition Add_new :: "data_class \<Rightarrow> nat \<Rightarrow> bool \<Rightarrow> unit action" where
  "Add_new data_class a commit =
     andthen (TableLength data_class) (\<lambda>size.
     andthen (set_dbid a (IntV size)) (\<lambda>u.
     andthen (cache_store (dc_name data_class) (IntV size) a) (\<lambda>u.
     andthen (attr_values a (sql_columns data_class)) (\<lambda>vs.
     andthen (log (Execute (insert_cmd (tablename data_class) (sql_columns data_class))
                    (IntV size # vs))) (\<lambda>u.
     andthen (insert_row (tablename data_class) (insert_placeholders (sql_columns data_class))
                    (IntV size # vs)) (\<lambda>u.
     andthen (add_lists a) (\<lambda>u.
     commit_if commit)))))))"

definition immutable_warning :: "data_class \<Rightarrow> string" where
  "immutable_warning data_class =
     ''WARNING: Can'' @ [CHR 0x27] @ ''t update immutable type '' @ dc_name data_class @ ''!''"

definition print_line :: "string \<Rightarrow> unit action" where
  "print_line text s = (Inr (), s\<lparr>stdout := stdout s @ [text]\<rparr>)"

definition update_list_of :: "nat \<Rightarrow> (string \<times> string) list \<Rightarrow> val \<Rightarrow> val list action" where
  "update_list_of a columns dbid s =
     lift (update_values (TYPE_DEFAULT s) (idict (heap s ! a)) columns dbid) s"

text \<open>
  \<^verbatim>\<open>Update\<close> for an item that has a \<^verbatim>\<open>dbid\<close> attribute, with value \<open>dbid\<close>;
  \<open>data_class\<close> is \<^verbatim>\<open>item.__class__\<close>.
\<close>

definition Update_row :: "data_class \<Rightarrow> nat \<Rightarrow> val \<Rightarrow> bool \<Rightarrow> bool \<Rightarrow> unit action" where
  "Update_row data_class a dbid force_update commit =
     (if immutable data_class \<and> \<not> force_update
      then print_line (immutable_warning data_class)
      else
       andthen (update_list_of a (sql_columns data_class) dbid) (\<lambda>update_list.
       andthen (lift (update_cmd (tablename data_class) (sql_columns data_class))) (\<lambda>cmd.
       andthen (log (Execute cmd update_list)) (\<lambda>u.
       andthen (update_rows (tablename data_class) (map fst (sql_columns data_class))
                        update_list) (\<lambda>u.
       andthen (update_lists a) (\<lambda>u.
       commit_if commit))))))"

function Add :: "nat \<Rightarrow> bool \<Rightarrow> unit action"
  and Update :: "nat \<Rightarrow> bool \<Rightarrow> bool \<Rightarrow> unit action" where
  "Add a commit s =
     (if has_key (heap s ! a) then Update a False commit s
      else Add_new (item_class (heap s ! a)) a commit s)"
| "Update a force_update commit s =
     (case idict (heap s ! a) ''dbid'' of
        Some dbid \<Rightarrow> Update_row (item_class (heap s ! a)) a dbid force_update commit s
      | None \<Rightarrow> Add a commit s)"
  by pat_completeness auto
termination
  by (relation "measure (\<lambda>x. case x of
          Inl (a, commit, s) \<Rightarrow> if has_key (heap s ! a) then 1 else 0
        | Inr (a, force_update, commit, s) \<Rightarrow>
            if idict (heap s ! a) ''dbid'' = None then 1 else 0)")
     (auto simp: has_key_def split: option.splits)

text \<open>The first loop of \<^verbatim>\<open>AddList\<close>: stored items go to \<^verbatim>\<open>Update\<close>, the others are kept.\<close>

fun redirect_keyed :: "nat list \<Rightarrow> bool \<Rightarrow> nat list \<Rightarrow> nat list action" where
  "redirect_keyed [] commit item_list s = (Inr item_list, s)"
| "redirect_keyed (a # rest) commit item_list s =
     (if has_key (heap s ! a)
      then (case Update a False commit s of
              (Inl e, s') \<Rightarrow> (Inl e, s')
            | (Inr u, s') \<Rightarrow> redirect_keyed rest commit item_list s')
      else redirect_keyed rest commit (item_list @ [a]) s)"

text \<open>The second loop: the item at position \<open>i\<close> gets the key \<open>i\<close>, is cached and gives a row.\<close>

fun new_entries :: "string \<Rightarrow> (string \<times> string) list \<Rightarrow> nat list \<Rightarrow> nat \<Rightarrow> val list list
    \<Rightarrow> val list list action" where
  "new_entries kind columns [] i entries s = (Inr entries, s)"
| "new_entries kind columns (a # rest) i entries s =
     (case andthen (set_dbid a (IntV (int i))) (\<lambda>u.
           andthen (cache_store kind (IntV (int i)) a) (\<lambda>u.
           attr_values a columns)) s of
        (Inl e, s') \<Rightarrow> (Inl e, s')
      | (Inr vs, s') \<Rightarrow>
          new_entries kind columns rest (Suc i) (entries @ [IntV (int i) # vs]) s')"

text \<open>\<^verbatim>\<open>AddList\<close> on a non-empty list; \<open>data_class\<close> is the class of its first item.\<close>

definition AddList_batch :: "data_class \<Rightarrow> nat list \<Rightarrow> bool \<Rightarrow> unit action" where
  "AddList_batch data_class i_list commit =
     andthen (redirect_keyed i_list commit []) (\<lambda>item_list.
     andthen (new_entries (dc_name data_class) (sql_columns data_class) item_list 0 [])
       (\<lambda>entries.
     andthen (log (ExecuteMany (insert_cmd (tablename data_class) (sql_columns data_class))
                    entries)) (\<lambda>u.
     andthen (prepare_insert (tablename data_class) (insert_placeholders (sql_columns data_class)))
       (\<lambda>u.
     andthen (insert_rows (tablename data_class) (insert_placeholders (sql_columns data_class))
                    entries) (\<lambda>u.
     andthen (add_lists_each item_list) (\<lambda>u.
     commit_if commit))))))"

definition AddList :: "nat list \<Rightarrow> bool \<Rightarrow> unit action" where
  "AddList i_list commit s =
     (if length i_list = 0 then (Inr (), s)
      else AddList_batch (item_class (heap s ! (i_list ! 0))) i_list commit s)"

text \<open>
  The statements that follow the classification of an item inside the loop of
  \<^verbatim>\<open>UpdateList\<close> (they are indented into the loop body): \<^verbatim>\<open>AddList\<close> on the items
  collected so far, \<^verbatim>\<open>executemany\<close> on the rows collected so far, the child lists of
  the updated items, the commit.
\<close>

definition flush :: "data_class \<Rightarrow> string \<Rightarrow> bool \<Rightarrow> val list list \<Rightarrow> nat list \<Rightarrow> nat list
    \<Rightarrow> unit action" where
  "flush data_class cmd commit arg_list i_list add_list =
     andthen (AddList add_list commit) (\<lambda>u.
     andthen (log (ExecuteMany cmd arg_list)) (\<lambda>u.
     andthen (prepare_update (tablename data_class) (map fst (sql_columns data_class))) (\<lambda>u.
     andthen (update_rows_many (tablename data_class) (map fst (sql_columns data_class))
                arg_list) (\<lambda>u.
     andthen (update_lists_each i_list) (\<lambda>u.
     commit_if commit)))))"

fun update_loop :: "nat list \<Rightarrow> data_class \<Rightarrow> string \<Rightarrow> bool \<Rightarrow> val list list \<Rightarrow> nat list
    \<Rightarrow> nat list \<Rightarrow> unit action" where
  "update_loop [] data_class cmd commit arg_list i_list add_list s = (Inr (), s)"
| "update_loop (a # rest) data_class cmd commit arg_list i_list add_list s =
     (case idict (heap s ! a) ''dbid'' of
        Some dbid \<Rightarrow>
          (case update_list_of a (sql_columns data_class) dbid s of
             (Inl e, s') \<Rightarrow> (Inl e, s')
           | (Inr update_list, s0) \<Rightarrow>
              (case flush data_class cmd commit (arg_list @ [update_list]) (i_list @ [a]) add_list s0 of
                 (Inl e, s') \<Rightarrow> (Inl e, s')
               | (Inr u, s') \<Rightarrow>
                   update_loop rest data_class cmd commit (arg_list @ [update_list]) (i_list @ [a])
                     add_list s'))
      | None \<Rightarrow>
          (case flush data_class cmd commit arg_list i_list (add_list @ [a]) s of
             (Inl e, s') \<Rightarrow> (Inl e, s')
           | (Inr u, s') \<Rightarrow>
               update_loop rest data_class cmd commit arg_list i_list (add_list @ [a]) s'))"

text \<open>\<^verbatim>\<open>UpdateList\<close> on a non-empty list; \<open>data_class\<close> is the class of its first item.\<close>

definition UpdateList_batch :: "data_class \<Rightarrow> nat list \<Rightarrow> bool \<Rightarrow> bool \<Rightarrow> unit action" where
  "UpdateList_batch data_class item_list force_update commit =
     (if immutable data_class \<and> \<not> force_update
      then print_line (immutable_warning data_class)
      else
       andthen (lift (update_cmd (tablename data_class) (sql_columns data_class))) (\<lambda>cmd.
       update_loop item_list data_class cmd commit [] [] []))"

definition UpdateList :: "nat list \<Rightarrow> bool \<Rightarrow> bool \<Rightarrow> unit action" where
  "UpdateList item_list force_update commit s =
     (if length item_list = 0 then (Inr (), s)
      else UpdateList_batch (item_class (heap s ! (item_list ! 0))) item_list force_update commit s)"

subsection \<open>Reads\<close>

text \<open>What \<^verbatim>\<open>data_class()\<close> returns.\<close>

definition construct :: "data_class \<Rightarrow> item" where
  "construct data_class =
     \<lparr>item_class = data_class, idict = init_dict data_class,
      references = init_references data_class, lists = init_lists data_class,
      lists_from_db = False\<rparr>"

text \<open>
  The loop of \<^verbatim>\<open>CopyRowToData\<close> over \<^verbatim>\<open>row.keys()\<close>: the key is assigned to
  \<^verbatim>\<open>dbid\<close>; an annotated field that has a reference object hands the stored value to
  the reference; every other column is set as an attribute.
\<close>

fun copy_columns :: "string list \<Rightarrow> data_class \<Rightarrow> row \<Rightarrow> item \<Rightarrow> item" where
  "copy_columns [] data_class r i = i"
| "copy_columns (column_name # rest) data_class r i =
     (case map_of r column_name of
        None \<Rightarrow> copy_columns rest data_class r i
      | Some v \<Rightarrow>
          copy_columns rest data_class r
            (if column_name = ''dbid'' then i\<lparr>idict := (idict i)(''dbid'' \<mapsto> v)\<rparr>
             else if column_name \<in> set (annotations data_class) \<and> references i column_name \<noteq> None
             then i\<lparr>references := (references i)(column_name \<mapsto> v)\<rparr>
             else i\<lparr>idict := (idict i)(column_name \<mapsto> v)\<rparr>))"

definition CopyRowToData :: "data_class \<Rightarrow> row \<Rightarrow> item \<Rightarrow> item" where
  "CopyRowToData data_class r i = (copy_columns (map fst r) data_class r i)\<lparr>lists_from_db := True\<rparr>"

definition ProcessRow :: "data_class \<Rightarrow> row \<Rightarrow> nat action" where
  "ProcessRow data_class r s =
     (case map_of r ''dbid'' of
        None \<Rightarrow> (Inl IndexError, s)
      | Some dbid \<Rightarrow>
         (case cache s (dc_name data_class) of
            None \<Rightarrow> (Inl KeyError, s)
          | Some bucket \<Rightarrow>
             (case bucket dbid of
                Some a \<Rightarrow>
                  (Inr a, s\<lparr>heap := (heap s)[a := CopyRowToData data_class r (heap s ! a)]\<rparr>)
              | None \<Rightarrow>
                  (Inr (length (heap s)),
                   s\<lparr>heap := heap s @ [CopyRowToData data_class r (construct data_class)],
                     cache := (cache s)(dc_name data_class \<mapsto> bucket(dbid \<mapsto> length (heap s)))\<rparr>))))"







definition select_dbid_cmd :: "string \<Rightarrow> string" where
  "select_dbid_cmd table_name = ''select * from '' @ table_name @ '' where dbid = ?''"

definition SelectAtIndex :: "data_class \<Rightarrow> val \<Rightarrow> nat option action" where
  "SelectAtIndex data_class index =
     andthen (log (Execute (select_dbid_cmd (tablename data_class)) [index])) (\<lambda>u.
     andthen (select_dbid (tablename data_class) index) (\<lambda>results.
       case results of
         [] \<Rightarrow> succeed None
       | result # rest \<Rightarrow> andthen (ProcessRow data_class result) (\<lambda>i. succeed (Some i))))"




subsection \<open>A registered kind and small stores\<close>

definition person :: data_class where
  "person = \<lparr>dc_name = ''Person'', tablename = ''person_table'',
     sql_columns = [(''name'', ''text''), (''age'', ''integer'')], immutable = False,
     annotations = [''name'', ''age''], init_dict = Map.empty, init_references = Map.empty,
     init_lists = []\<rparr>"

definition frozen_person :: data_class where
  "frozen_person = person\<lparr>immutable := True\<rparr>"

definition instance_of :: "data_class \<Rightarrow> (string \<rightharpoonup> val) \<Rightarrow> item" where
  "instance_of kind d =
     \<lparr>item_class = kind, idict = d, references = Map.empty, lists = [], lists_from_db = False\<rparr>"

text \<open>
  A store after \<^verbatim>\<open>RegisterTables\<close> and \<^verbatim>\<open>CreateTables\<close> for one kind: an empty
  bucket, a table with the kind's columns holding the given rows, and the defaults of the
  built-in storage types text and integer.
\<close>

definition store_of :: "data_class \<Rightarrow> item list \<Rightarrow> val list list \<Rightarrow> state" where
  "store_of kind objects stored =
     \<lparr>heap = objects,
      cache = [dc_name kind \<mapsto> Map.empty],
      tables = [tablename kind \<mapsto> \<lparr>col_names = map fst (sql_columns kind), rows = stored\<rparr>],
      trace = [], stdout = [],
      TYPE_DEFAULT = [''text'' \<mapsto> TextV '''', ''integer'' \<mapsto> IntV (- 1)]\<rparr>"


definition pair_store :: state where
  "pair_store =
     store_of person
       [instance_of person [''name'' \<mapsto> TextV ''ann'', ''age'' \<mapsto> IntV 30],
        instance_of person [''name'' \<mapsto> TextV ''bob'']] []"

definition unsaved_frozen_store :: state where
  "unsaved_frozen_store =
     store_of frozen_person [instance_of frozen_person [''name'' \<mapsto> TextV ''ann'']] []"

definition saved_frozen_store :: state where
  "saved_frozen_store =
     store_of frozen_person
       [instance_of frozen_person [''dbid'' \<mapsto> IntV 0, ''name'' \<mapsto> TextV ''ann'']]
       [[IntV 0, TextV ''ann'', IntV 30]]"

definition duplicate_key_store :: state where
  "duplicate_key_store =
     store_of person [instance_of person [''name'' \<mapsto> TextV ''ann'']]
       [[IntV 1, TextV ''bob'', IntV 40]]"

definition failing_list_store :: state where
  "failing_list_store =
     store_of person [(instance_of person [''name'' \<mapsto> TextV ''ann''])\<lparr>lists := [False]\<rparr>] []"

definition mixed_store :: state where
  "mixed_store =
     store_of person
       [instance_of person [''dbid'' \<mapsto> IntV 5, ''name'' \<mapsto> TextV ''eve''],
        instance_of person [''name'' \<mapsto> TextV ''ann''],
        instance_of person [''name'' \<mapsto> TextV ''bob'']]
       [[IntV 5, TextV ''eve'', IntV 20]]"



text \<open>The stored items of a list handed to \<^verbatim>\<open>Update\<close> one by one, in list order.\<close>

fun Update_each :: "nat list \<Rightarrow> bool \<Rightarrow> unit action" where
  "Update_each [] commit s = (Inr (), s)"
| "Update_each (a # rest) commit s =
     (case Update a False commit s of
        (Inl e, s') \<Rightarrow> (Inl e, s')
      | (Inr u, s') \<Rightarrow> Update_each rest commit s')"


subsection \<open>Reading the trace\<close>


definition batch_statement :: "event \<Rightarrow> bool" where
  "batch_statement e = (case e of ExecuteMany cmd ps \<Rightarrow> True | _ \<Rightarrow> False)"

definition statement :: "event \<Rightarrow> bool" where
  "statement e = (case e of Execute cmd ps \<Rightarrow> True | ExecuteMany cmd ps \<Rightarrow> True | _ \<Rightarrow> False)"


text \<open>An action only appends to the trace, and every event it appends satisfies \<open>P\<close>.\<close>

definition appends :: "(event \<Rightarrow> bool) \<Rightarrow> 'a action \<Rightarrow> bool" where
  "appends P m = (\<forall>s. \<exists>evs. trace (snd (m s)) = trace s @ evs \<and> list_all P evs)"

text \<open>An action leaves a component of the state as it was.\<close>

definition keeps :: "(state \<Rightarrow> 'b) \<Rightarrow> 'a action \<Rightarrow> bool" where
  "keeps f m = (\<forall>s. f (snd (m s)) = f s)"

text \<open>
  The fields \<^verbatim>\<open>CopyRowToData\<close> forwards to a reference object instead of assigning:
  annotated fields for which \<^verbatim>\<open>__get_reference__\<close> returns a reference.
\<close>

definition reference_field :: "data_class \<Rightarrow> item \<Rightarrow> string \<Rightarrow> bool" where
  "reference_field dc i c = (c \<noteq> ''dbid'' \<and> c \<in> set (annotations dc) \<and> references i c \<noteq> None)"

section \<open>Properties of the builder\<close>

lemma chain_loop_fragments:
  "chain_loop (map Fragment fs) c acc =
     Inr (fst acc @ concat (map (\<lambda>f. ''('' @ fst f @ '')'' @ c) fs), snd acc @ concat (map snd fs))"
  by (induction fs arbitrary: acc) (simp_all add: expr_text_def add_values_def)

lemma joined_text_snoc:
  "joined_text c (ts @ [t]) = concat (map (\<lambda>u. ''('' @ u @ '')'' @ c) ts) @ ''('' @ t @ '')''"
  by (induction c ts rule: joined_text.induct) simp_all

lemma ChainExprs_fragments_snoc:
  "ChainExprs (map Fragment (fs @ [f])) c = Inr (composed c (fs @ [f]))"
proof -
  have t: "take (length fs) (map Fragment fs @ [Fragment f]) = map Fragment fs"
    by simp
  have s: "subscript (map Fragment fs @ [Fragment f]) (int (length fs)) = Inr (Fragment f)"
    by (simp add: subscript_def nth_append)
  have j: "joined_text c (map fst fs @ [fst f])
             = concat (map (\<lambda>u. ''('' @ u @ '')'' @ c) (map fst fs)) @ ''('' @ fst f @ '')''"
    by (rule joined_text_snoc)
  show ?thesis
    by (simp add: ChainExprs_def t s chain_loop_fragments expr_text_def add_values_def
        composed_def j comp_def)
qed

lemma ChainExprs_fragments:
  "ChainExprs (map Fragment (f # fs)) c = Inr (composed c (f # fs))"
proof -
  obtain gs g where "f # fs = gs @ [g]"
    by (metis append_butlast_last_id list.distinct(1))
  then show ?thesis
    using ChainExprs_fragments_snoc [of gs g c] by simp
qed

lemma ChainExprs_empty: "ChainExprs [] c = Inl IndexError"
  by (simp add: ChainExprs_def subscript_def)

text \<open>
  C7. \<^verbatim>\<open>And\<close> and \<^verbatim>\<open>Or\<close> put every sub-fragment in parentheses, join them with
  their connective and concatenate the value tuples from left to right; \<^verbatim>\<open>Not\<close>
  wraps the text in a negation and keeps the values. The two examples of the specification
  evaluate to the stated text and values.
\<close>

theorem query_fragments_compose:
  "And (map Fragment (f # fs)) = Inr (composed '' and '' (f # fs))
   \<and> Or (map Fragment (f # fs)) = Inr (composed '' or '' (f # fs))
   \<and> Not (t, vs) = (''not ('' @ t @ '')'', vs)
   \<and> And [Fragment (Equals ''a'' (IntV 1)), Fragment (GreaterThan ''b'' (IntV 2))]
       = Inr (''(a = ?) and (b > ?)'', [IntV 1, IntV 2])
   \<and> Not (''(a = ?) and (b > ?)'', [IntV 1, IntV 2])
       = (''not ((a = ?) and (b > ?))'', [IntV 1, IntV 2])"
proof -
  have ex: "And (map Fragment [Equals ''a'' (IntV 1), GreaterThan ''b'' (IntV 2)])
              = Inr (composed '' and '' [Equals ''a'' (IntV 1), GreaterThan ''b'' (IntV 2)])"
    unfolding And_def by (rule ChainExprs_fragments)
  have e1: "And [Fragment (Equals ''a'' (IntV 1)), Fragment (GreaterThan ''b'' (IntV 2))]
          = Inr (''(a = ?) and (b > ?)'', [IntV 1, IntV 2])"
    using ex by (simp add: composed_def Equals_def GreaterThan_def)
  have a: "And (map Fragment (f # fs)) = Inr (composed '' and '' (f # fs))"
    unfolding And_def by (rule ChainExprs_fragments)
  have b: "Or (map Fragment (f # fs)) = Inr (composed '' or '' (f # fs))"
    unfolding Or_def by (rule ChainExprs_fragments)
  have c: "Not (t, vs) = (''not ('' @ t @ '')'', vs)"
    by (simp add: Not_def)
  have d: "Not (''(a = ?) and (b > ?)'', [IntV 1, IntV 2])
             = (''not ((a = ?) and (b > ?))'', [IntV 1, IntV 2])"
    by (simp add: Not_def)
  from a b c e1 d show ?thesis by blast
qed

text \<open>
  C9. \<^verbatim>\<open>OrderChain\<close> applied to one ordering fragment, the string built by
  \<^verbatim>\<open>OrderAscending\<close>, does not return: \<^verbatim>\<open>ChainExprs\<close> reads the second
  character of the string as a value tuple and the tuple concatenation raises TypeError.
\<close>

theorem OrderChain_ordering_fragment_raises:
  "OrderChain [OrderText (OrderAscending ''a'')] = Inl TypeError"
  by (simp add: OrderChain_def ChainExprs_def OrderAscending_def subscript_def
      expr_text_def add_values_def)

section \<open>Properties of the store\<close>

lemmas prim_defs = andthen_def succeed_def raise_def lift_def log_def commit_if_def
  select_all_def insert_row_def update_rows_def select_dbid_def select_random_def
  prepare_insert_def prepare_update_def
  set_dbid_def cache_store_def attr_values_def TableLength_def add_lists_def update_lists_def
  print_line_def update_list_of_def

lemmas fixture_defs = person_def frozen_person_def instance_of_def store_of_def

subsection \<open>What the operations append to the trace\<close>

lemma appendsI: "(\<And>s. \<exists>evs. trace (snd (m s)) = trace s @ evs \<and> list_all P evs) \<Longrightarrow> appends P m"
  by (simp add: appends_def)

lemma appendsD: "appends P m \<Longrightarrow> \<exists>evs. trace (snd (m s)) = trace s @ evs \<and> list_all P evs"
  by (simp add: appends_def)

lemma appends_andthen:
  assumes m: "appends P m" and f: "\<And>x. appends P (f x)"
  shows "appends P (andthen m f)"
proof (rule appendsI)
  fix s
  obtain r s1 where ms: "m s = (r, s1)" by (cases "m s")
  from appendsD [OF m, of s] ms obtain evs1 where
    e1: "trace s1 = trace s @ evs1" "list_all P evs1" by auto
  show "\<exists>evs. trace (snd (andthen m f s)) = trace s @ evs \<and> list_all P evs"
  proof (cases r)
    case (Inl e)
    with ms e1 show ?thesis by (auto simp: andthen_def)
  next
    case (Inr x)
    from appendsD [OF f, of x s1] obtain evs2 where
      e2: "trace (snd (f x s1)) = trace s1 @ evs2" "list_all P evs2" by auto
    with ms e1 Inr show ?thesis by (auto simp: andthen_def)
  qed
qed

lemma appends_silent:
  "appends P (succeed x)" "appends P (raise e)" "appends P (lift r)"
  "appends P (select_all t)" "appends P (insert_row t n ps)" "appends P (update_rows t ns ps)"
  "appends P (set_dbid a v)" "appends P (cache_store k v a)" "appends P (attr_values a cs)"
  by (auto simp: appends_def prim_defs split: option.splits sum.splits)

lemma appends_log: "P e \<Longrightarrow> appends P (log e)"
  by (simp add: appends_def log_def)

lemma appends_commit_if: "P Commit \<Longrightarrow> appends P (commit_if c)"
  by (simp add: commit_if_def appends_log appends_silent)







subsection \<open>Update on immutable kinds\<close>

text \<open>
  C3, as the code has it. For an item that has a \<^verbatim>\<open>dbid\<close> attribute and whose kind is
  immutable, \<^verbatim>\<open>Update\<close> without \<^verbatim>\<open>force_update\<close> returns normally and changes
  nothing but the printed output, which gains the warning: no statement is executed and
  the tables, the cache and the objects are as before.
\<close>

theorem Update_immutable_noop:
  assumes "immutable (item_class (heap s ! a))" and "idict (heap s ! a) ''dbid'' \<noteq> None"
  shows "Update a False commit s
           = (Inr (), s\<lparr>stdout := stdout s @ [immutable_warning (item_class (heap s ! a))]\<rparr>)"
  using assms by (auto simp: Update_row_def print_line_def)

theorem Update_immutable_noop_witness:
  "immutable (item_class (heap saved_frozen_store ! 0))
   \<and> idict (heap saved_frozen_store ! 0) ''dbid'' \<noteq> None
   \<and> Update 0 False True saved_frozen_store
      = (Inr (), saved_frozen_store
           \<lparr>stdout := [''WARNING: Can'' @ [CHR 0x27] @ ''t update immutable type Person!'']\<rparr>)"
proof -
  have i: "immutable (item_class (heap saved_frozen_store ! 0))"
    by (simp add: saved_frozen_store_def fixture_defs)
  have d: "idict (heap saved_frozen_store ! 0) ''dbid'' \<noteq> None"
    by (simp add: saved_frozen_store_def fixture_defs)
  have w: "immutable_warning (item_class (heap saved_frozen_store ! 0))
             = ''WARNING: Can'' @ [CHR 0x27] @ ''t update immutable type Person!''"
    by (simp add: saved_frozen_store_def fixture_defs immutable_warning_def)
  have st: "stdout saved_frozen_store = []"
    by (simp add: saved_frozen_store_def fixture_defs)
  show ?thesis
    using Update_immutable_noop [OF i d, of True] i d w st by simp
qed

text \<open>
  C3 as stated fails for an item of an immutable kind that has no \<^verbatim>\<open>dbid\<close> attribute:
  \<^verbatim>\<open>Update\<close> hands it to \<^verbatim>\<open>Add\<close>, which executes an insert and stores a row.
\<close>

theorem Update_immutable_unkeyed_inserts:
  "immutable (item_class (heap unsaved_frozen_store ! 0))
   \<and> trace unsaved_frozen_store = []
   \<and> fst (Update 0 False True unsaved_frozen_store) = Inr ()
   \<and> trace (snd (Update 0 False True unsaved_frozen_store))
       = [Execute ''select * from person_table'' [],
          Execute ''insert into person_table values (?, ?, ?)'' [IntV 0, TextV ''ann'', IntV (- 1)],
          Commit]
   \<and> map_option rows (tables (snd (Update 0 False True unsaved_frozen_store)) ''person_table'')
       = Some [[IntV 0, TextV ''ann'', IntV (- 1)]]"
  by (simp add: unsaved_frozen_store_def fixture_defs has_key_def Add_new_def prim_defs Let_def
      column_value_def adapt_def insert_cmd_def insert_placeholders_def)

subsection \<open>Update and the key\<close>





subsection \<open>UpdateList\<close>

text \<open>
  C4. Two fresh items are added with \<^verbatim>\<open>AddList\<close> and then passed to
  \<^verbatim>\<open>UpdateList\<close>. The kind is mutable and both items have a key, yet
  \<^verbatim>\<open>executemany\<close> runs twice, once per loop iteration, and the row of the first item
  is in both batches.
\<close>

theorem UpdateList_repeats_batches:
  "fst (AddList [0, 1] True pair_store) = Inr ()
   \<and> fst (UpdateList [0, 1] False True (snd (AddList [0, 1] True pair_store))) = Inr ()
   \<and> trace (snd (UpdateList [0, 1] False True (snd (AddList [0, 1] True pair_store))))
       = trace (snd (AddList [0, 1] True pair_store))
         @ [ExecuteMany ''update person_table set name = ?, age = ? where dbid = ?''
              [[TextV ''ann'', IntV 30, IntV 0]],
            Commit,
            ExecuteMany ''update person_table set name = ?, age = ? where dbid = ?''
              [[TextV ''ann'', IntV 30, IntV 0], [TextV ''bob'', IntV (- 1), IntV 1]],
            Commit]"
  by code_simp


subsection \<open>Reads that match nothing\<close>



subsection \<open>What the operations leave unchanged\<close>

lemma keepsD: "keeps f m \<Longrightarrow> f (snd (m s)) = f s"
  by (simp add: keeps_def)

lemma keeps_andthen:
  assumes "keeps f m" and "\<And>x. keeps f (g x)"
  shows "keeps f (andthen m g)"
  unfolding keeps_def
proof
  fix s
  obtain r s1 where ms: "m s = (r, s1)" by (cases "m s")
  with assms(1) have 1: "f s1 = f s" by (auto simp: keeps_def dest: spec [of _ s])
  show "f (snd (andthen m g s)) = f s"
  proof (cases r)
    case (Inl e)
    with ms 1 show ?thesis by (simp add: andthen_def)
  next
    case (Inr x)
    with ms 1 keepsD [OF assms(2), of x s1] show ?thesis by (simp add: andthen_def)
  qed
qed

lemma keeps_heap_prims:
  "keeps heap (succeed x)" "keeps heap (raise e)" "keeps heap (lift r)" "keeps heap (log ev)"
  "keeps heap (commit_if c)" "keeps heap (print_line w)"
  "keeps heap (select_all t)" "keeps heap (insert_row t n ps)" "keeps heap (update_rows t ns ps)"
  "keeps heap (cache_store k v a)" "keeps heap (attr_values a cs)" "keeps heap (update_list_of a cs d)"
  by (auto simp: keeps_def prim_defs split: option.splits sum.splits)

lemma keeps_cache_prims:
  "keeps cache (succeed x)" "keeps cache (raise e)" "keeps cache (lift r)" "keeps cache (log ev)"
  "keeps cache (commit_if c)" "keeps cache (print_line w)"
  "keeps cache (select_all t)" "keeps cache (insert_row t n ps)" "keeps cache (update_rows t ns ps)"
  "keeps cache (set_dbid a v)" "keeps cache (attr_values a cs)" "keeps cache (update_list_of a cs d)"
  by (auto simp: keeps_def prim_defs split: option.splits sum.splits)

lemma keeps_tables_prims:
  "keeps tables (succeed x)" "keeps tables (raise e)" "keeps tables (lift r)" "keeps tables (log ev)"
  "keeps tables (commit_if c)" "keeps tables (print_line w)"
  "keeps tables (select_all t)" "keeps tables (cache_store k v a)"
  "keeps tables (set_dbid a v)" "keeps tables (attr_values a cs)" "keeps tables (update_list_of a cs d)"
  by (auto simp: keeps_def prim_defs split: option.splits sum.splits)

lemma add_lists_from_state:
  "\<exists>evs. snd (add_lists_from a k oks s) = s\<lparr>trace := trace s @ evs\<rparr>"
proof (induction oks arbitrary: k s)
  case Nil
  show ?case by (rule exI [of _ "[]"]) simp
next
  case (Cons ok oks)
  from Cons.IH [of "Suc k" "s\<lparr>trace := trace s @ [ListAdd a k]\<rparr>"]
  show ?case by (cases ok) (auto simp: log_def)
qed

lemma update_lists_from_state:
  "\<exists>evs. snd (update_lists_from a k oks s) = s\<lparr>trace := trace s @ evs\<rparr>"
proof (induction oks arbitrary: k s)
  case Nil
  show ?case by (rule exI [of _ "[]"]) simp
next
  case (Cons ok oks)
  from Cons.IH [of "Suc k" "s\<lparr>trace := trace s @ [ListUpdate a k]\<rparr>"]
  show ?case by (cases ok) (auto simp: log_def)
qed

lemma keeps_lists:
  "keeps heap (add_lists a)" "keeps cache (add_lists a)" "keeps tables (add_lists a)"
  "keeps heap (update_lists a)" "keeps cache (update_lists a)" "keeps tables (update_lists a)"
  unfolding keeps_def add_lists_def update_lists_def
  by (metis (no_types, lifting) add_lists_from_state update_lists_from_state
        state.select_convs state.surjective state.update_convs)+

subsection \<open>Add is not rolled back\<close>

lemma Add_new_stages:
  assumes "tables s (tablename dc) = Some t" and "cache s (dc_name dc) = Some b"
  shows "Add_new dc a c s =
    (andthen (attr_values a (sql_columns dc)) (\<lambda>vs.
     andthen (log (Execute (insert_cmd (tablename dc) (sql_columns dc))
                    (IntV (int (length (rows t))) # vs))) (\<lambda>u.
     andthen (insert_row (tablename dc) (insert_placeholders (sql_columns dc))
                    (IntV (int (length (rows t))) # vs)) (\<lambda>u.
     andthen (add_lists a) (\<lambda>u.
     commit_if c)))))
      (s\<lparr>trace := trace s @ [Execute (''select * from '' @ tablename dc) []],
         heap := (heap s)[a := (heap s ! a)\<lparr>idict := (idict (heap s ! a))(''dbid'' \<mapsto> IntV (int (length (rows t))))\<rparr>],
         cache := (cache s)(dc_name dc \<mapsto> b(IntV (int (length (rows t))) \<mapsto> a))\<rparr>)"
  using assms
  by (simp add: Add_new_def TableLength_def andthen_def log_def select_all_def succeed_def
      set_dbid_def cache_store_def)

lemma Add_new_tail_keeps:
  "keeps heap (andthen (attr_values a cols) (\<lambda>vs.
     andthen (log (ev vs)) (\<lambda>u.
     andthen (insert_row T n (ps vs)) (\<lambda>u.
     andthen (add_lists a) (\<lambda>u.
     commit_if c)))))"
  "keeps cache (andthen (attr_values a cols) (\<lambda>vs.
     andthen (log (ev vs)) (\<lambda>u.
     andthen (insert_row T n (ps vs)) (\<lambda>u.
     andthen (add_lists a) (\<lambda>u.
     commit_if c)))))"
  by (intro keeps_andthen keeps_heap_prims keeps_cache_prims keeps_lists)+

text \<open>
  C10. \<^verbatim>\<open>Add\<close> on a fresh item of a registered kind whose table exists: when the
  call ends in an error raised after the key was assigned (the values cannot be built, the
  insert is rejected, a child list fails), the item still carries the key it was given,
  the row count of the table, and the cache still maps that key to the item. Nothing is
  rolled back.
\<close>

theorem Add_keeps_key_and_cache_entry:
  assumes "a < length (heap s)" and "\<not> has_key (heap s ! a)"
    and "tables s (tablename (item_class (heap s ! a))) = Some t"
    and "cache s (dc_name (item_class (heap s ! a))) = Some bucket"
    and "Add a commit s = (Inl e, s')"
  shows "idict (heap s' ! a) ''dbid'' = Some (IntV (int (length (rows t))))
         \<and> (\<exists>bucket'. cache s' (dc_name (item_class (heap s ! a))) = Some bucket'
               \<and> bucket' (IntV (int (length (rows t)))) = Some a)"
proof -
  let ?dc = "item_class (heap s ! a)"
  from assms(2,5) have "Add_new ?dc a commit s = (Inl e, s')" by simp
  then have s': "s' = snd (Add_new ?dc a commit s)" by simp
  have h: "heap s' = (heap s)[a := (heap s ! a)\<lparr>idict := (idict (heap s ! a))(''dbid'' \<mapsto> IntV (int (length (rows t))))\<rparr>]"
    unfolding s' Add_new_stages [OF assms(3,4)]
    by (simp add: keepsD [OF Add_new_tail_keeps(1)])
  have c: "cache s' = (cache s)(dc_name ?dc \<mapsto> bucket(IntV (int (length (rows t))) \<mapsto> a))"
    unfolding s' Add_new_stages [OF assms(3,4)]
    by (simp add: keepsD [OF Add_new_tail_keeps(2)])
  from h c assms(1) show ?thesis by simp
qed

text \<open>
  The table already holds a row with key 1 and has one row, so the fresh item is given the
  key 1 and the insert is rejected.
\<close>

theorem Add_keeps_key_and_cache_entry_witness:
  "Add 0 True duplicate_key_store
     = (Inl EngineError, snd (Add 0 True duplicate_key_store))
   \<and> idict (heap (snd (Add 0 True duplicate_key_store)) ! 0) ''dbid'' = Some (IntV 1)
   \<and> (\<exists>bucket'. cache (snd (Add 0 True duplicate_key_store)) ''Person'' = Some bucket'
         \<and> bucket' (IntV 1) = Some 0)"
proof -
  let ?s = duplicate_key_store
  let ?t = "\<lparr>col_names = [''name'', ''age''], rows = [[IntV 1, TextV ''bob'', IntV 40]]\<rparr>"
  have 1: "(0::nat) < length (heap ?s)" by (simp add: duplicate_key_store_def fixture_defs)
  have 2: "\<not> has_key (heap ?s ! 0)" by (simp add: duplicate_key_store_def fixture_defs has_key_def)
  have 3: "tables ?s (tablename (item_class (heap ?s ! 0))) = Some ?t"
    by (simp add: duplicate_key_store_def fixture_defs)
  have 4: "cache ?s (dc_name (item_class (heap ?s ! 0))) = Some Map.empty"
    by (simp add: duplicate_key_store_def fixture_defs)
  have f: "fst (Add 0 True ?s) = Inl EngineError" by code_simp
  then have 5: "Add 0 True ?s = (Inl EngineError, snd (Add 0 True ?s))"
    by (metis prod.collapse)
  have n: "dc_name (item_class (heap ?s ! 0)) = ''Person''"
    by (simp add: duplicate_key_store_def fixture_defs)
  from Add_keeps_key_and_cache_entry [OF 1 2 3 4 5] 5 show ?thesis
    unfolding n by simp
qed

subsection \<open>A successful Add, step by step\<close>

lemma andthen_Inr:
  assumes "andthen m f s = (Inr y, s')"
  obtains x s1 where "m s = (Inr x, s1)" and "f x s1 = (Inr y, s')"
  using assms by (auto simp: andthen_def split: prod.splits sum.splits)

lemma add_lists_state: "\<exists>evs. snd (add_lists a s) = s\<lparr>trace := trace s @ evs\<rparr>"
  by (simp add: add_lists_def add_lists_from_state)

lemma column_values_length: "column_values td d cols = Inr vs \<Longrightarrow> length vs = length cols"
  by (induction cols arbitrary: vs) (auto split: sum.splits)


lemma Add_new_Inr:
  assumes ok: "Add_new dc a c s = (Inr u, s')" and a: "a < length (heap s)"
  obtains t b vs evs where
    "tables s (tablename dc) = Some t"
    "cache s (dc_name dc) = Some b"
    "column_values (TYPE_DEFAULT s) ((idict (heap s ! a))(''dbid'' \<mapsto> IntV (int (length (rows t)))))
        (sql_columns dc) = Inr vs"
    "IntV (int (length (rows t))) \<notin> set (map hd (rows t))"
    "length (sql_columns dc) = length (col_names t)"
    "heap s' = (heap s)[a := (heap s ! a)\<lparr>idict := (idict (heap s ! a))(''dbid'' \<mapsto> IntV (int (length (rows t))))\<rparr>]"
    "cache s' = (cache s)(dc_name dc \<mapsto> b(IntV (int (length (rows t))) \<mapsto> a))"
    "tables s' = (tables s)(tablename dc \<mapsto> t\<lparr>rows := rows t @ [IntV (int (length (rows t))) # vs]\<rparr>)"
    "trace s' = trace s @ Execute (''select * from '' @ tablename dc) []
                  # Execute (insert_cmd (tablename dc) (sql_columns dc)) (IntV (int (length (rows t))) # vs) # evs"
    "TYPE_DEFAULT s' = TYPE_DEFAULT s"
proof -
  obtain t where t: "tables s (tablename dc) = Some t"
    using ok by (cases "tables s (tablename dc)")
      (auto simp: Add_new_def TableLength_def andthen_def log_def select_all_def)
  obtain b where b: "cache s (dc_name dc) = Some b"
    using ok t by (cases "cache s (dc_name dc)")
      (auto simp: Add_new_def TableLength_def andthen_def log_def select_all_def succeed_def
          set_dbid_def cache_store_def)
  let ?n = "IntV (int (length (rows t)))"
  let ?it = "(heap s ! a)\<lparr>idict := (idict (heap s ! a))(''dbid'' \<mapsto> ?n)\<rparr>"
  let ?s2 = "s\<lparr>trace := trace s @ [Execute (''select * from '' @ tablename dc) []],
         heap := (heap s)[a := ?it],
         cache := (cache s)(dc_name dc \<mapsto> b(?n \<mapsto> a))\<rparr>"
  note st = ok [unfolded Add_new_stages [OF t b]]
  from st obtain vs s3 where 3: "attr_values a (sql_columns dc) ?s2 = (Inr vs, s3)"
    and r3: "andthen (log (Execute (insert_cmd (tablename dc) (sql_columns dc)) (?n # vs))) (\<lambda>u.
     andthen (insert_row (tablename dc) (insert_placeholders (sql_columns dc)) (?n # vs)) (\<lambda>u.
     andthen (add_lists a) (\<lambda>u. commit_if c))) s3 = (Inr u, s')"
    by (rule andthen_Inr)
  from 3 a have vs: "column_values (TYPE_DEFAULT s) ((idict (heap s ! a))(''dbid'' \<mapsto> ?n)) (sql_columns dc) = Inr vs"
    and s3: "s3 = ?s2"
    by (auto simp: attr_values_def lift_def split: sum.splits)
  let ?s4 = "?s2\<lparr>trace := trace ?s2 @ [Execute (insert_cmd (tablename dc) (sql_columns dc)) (?n # vs)]\<rparr>"
  from r3 s3 have r4: "andthen (insert_row (tablename dc) (insert_placeholders (sql_columns dc)) (?n # vs)) (\<lambda>u.
     andthen (add_lists a) (\<lambda>u. commit_if c)) ?s4 = (Inr u, s')"
    by (simp add: andthen_def log_def)
  from r4 obtain x5 s5 where 5: "insert_row (tablename dc) (insert_placeholders (sql_columns dc)) (?n # vs) ?s4 = (Inr x5, s5)"
    and r5: "andthen (add_lists a) (\<lambda>u. commit_if c) s5 = (Inr u, s')"
    by (rule andthen_Inr)
  from 5 t have g: "?n \<notin> set (map hd (rows t))" "length vs = length (col_names t)"
    and s5: "s5 = ?s4\<lparr>tables := (tables s)(tablename dc \<mapsto> t\<lparr>rows := rows t @ [?n # vs]\<rparr>)\<rparr>"
    by (auto simp: insert_row_def split: if_splits)
  from r5 obtain x6 s6 where 6: "add_lists a s5 = (Inr x6, s6)" and r6: "commit_if c s6 = (Inr u, s')"
    by (rule andthen_Inr)
  from add_lists_state [of a s5] 6 obtain evs where s6: "s6 = s5\<lparr>trace := trace s5 @ evs\<rparr>"
    by auto
  from r6 have s': "s' = s6\<lparr>trace := trace s6 @ (if c then [Commit] else [])\<rparr>"
    by (auto simp: commit_if_def log_def succeed_def split: if_splits)
  have len: "length (sql_columns dc) = length (col_names t)"
    using column_values_length [OF vs] g(2) by simp
  show thesis
  proof (rule that [OF t b vs g(1) len])
    show "heap s' = (heap s)[a := ?it]" by (simp add: s' s6 s5)
    show "cache s' = (cache s)(dc_name dc \<mapsto> b(?n \<mapsto> a))" by (simp add: s' s6 s5)
    show "tables s' = (tables s)(tablename dc \<mapsto> t\<lparr>rows := rows t @ [?n # vs]\<rparr>)"
      by (simp add: s' s6 s5)
    show "trace s' = trace s @ Execute (''select * from '' @ tablename dc) []
                  # Execute (insert_cmd (tablename dc) (sql_columns dc)) (?n # vs)
                  # (evs @ (if c then [Commit] else []))"
      by (simp add: s' s6 s5)
    show "TYPE_DEFAULT s' = TYPE_DEFAULT s" by (simp add: s' s6 s5)
  qed
qed

subsection \<open>The identity cache\<close>

lemma copy_columns_fields:
  "idict (copy_columns cols dc r i) c
     = (if c \<in> set cols \<and> map_of r c \<noteq> None \<and> \<not> reference_field dc i c then map_of r c else idict i c)
   \<and> references (copy_columns cols dc r i) c
     = (if c \<in> set cols \<and> map_of r c \<noteq> None \<and> reference_field dc i c then map_of r c else references i c)
   \<and> item_class (copy_columns cols dc r i) = item_class i
   \<and> lists (copy_columns cols dc r i) = lists i"
proof (induction cols arbitrary: i)
  case Nil
  show ?case by simp
next
  case (Cons x cols)
  show ?case
  proof (cases "map_of r x")
    case None
    with Cons.IH [of i] show ?thesis by auto
  next
    case (Some v)
    let ?i = "if x = ''dbid'' then i\<lparr>idict := (idict i)(''dbid'' \<mapsto> v)\<rparr>
             else if x \<in> set (annotations dc) \<and> references i x \<noteq> None
             then i\<lparr>references := (references i)(x \<mapsto> v)\<rparr>
             else i\<lparr>idict := (idict i)(x \<mapsto> v)\<rparr>"
    have rf: "reference_field dc ?i c = reference_field dc i c"
      by (auto simp: reference_field_def)
    have step: "copy_columns (x # cols) dc r i = copy_columns cols dc r ?i"
      using Some by simp
    show ?thesis
      unfolding step using Cons.IH [of ?i] Some
      by (auto simp: rf) (auto simp: reference_field_def)
  qed
qed

lemma CopyRowToData_fields:
  "idict (CopyRowToData dc r i) c
     = (case map_of r c of None \<Rightarrow> idict i c
        | Some v \<Rightarrow> if reference_field dc i c then idict i c else Some v)"
  "references (CopyRowToData dc r i) c
     = (case map_of r c of None \<Rightarrow> references i c
        | Some v \<Rightarrow> if reference_field dc i c then Some v else references i c)"
  "item_class (CopyRowToData dc r i) = item_class i"
  "lists (CopyRowToData dc r i) = lists i"
  "lists_from_db (CopyRowToData dc r i)"
proof -
  have m: "c \<in> set (map fst r) \<longleftrightarrow> map_of r c \<noteq> None"
    by (simp add: map_of_eq_None_iff)
  note f = copy_columns_fields [of "map fst r" dc r i c, unfolded m]
  show "idict (CopyRowToData dc r i) c
     = (case map_of r c of None \<Rightarrow> idict i c
        | Some v \<Rightarrow> if reference_field dc i c then idict i c else Some v)"
    using f by (auto simp: CopyRowToData_def split: option.splits)
  show "references (CopyRowToData dc r i) c
     = (case map_of r c of None \<Rightarrow> references i c
        | Some v \<Rightarrow> if reference_field dc i c then Some v else references i c)"
    using f by (auto simp: CopyRowToData_def split: option.splits)
  show "item_class (CopyRowToData dc r i) = item_class i"
    "lists (CopyRowToData dc r i) = lists i"
    "lists_from_db (CopyRowToData dc r i)"
    using f by (simp_all add: CopyRowToData_def)
qed


lemma ProcessRow_hit:
  assumes "map_of r ''dbid'' = Some d" and "cache s (dc_name dc) = Some b" and "b d = Some a"
  shows "ProcessRow dc r s = (Inr a, s\<lparr>heap := (heap s)[a := CopyRowToData dc r (heap s ! a)]\<rparr>)"
  using assms by (simp add: ProcessRow_def)

lemma ProcessRow_miss:
  assumes "map_of r ''dbid'' = Some d" and "cache s (dc_name dc) = Some b" and "b d = None"
  shows "ProcessRow dc r s
           = (Inr (length (heap s)),
              s\<lparr>heap := heap s @ [CopyRowToData dc r (construct dc)],
                cache := (cache s)(dc_name dc \<mapsto> b(d \<mapsto> length (heap s)))\<rparr>)"
  using assms by (simp add: ProcessRow_def)

lemma Add_then_SelectAtIndex:
  assumes a: "a < length (heap s)" and fresh: "\<not> has_key (heap s ! a)"
    and ok: "Add a commit s = (Inr (), s1)"
  shows "\<exists>d s2. idict (heap s1 ! a) ''dbid'' = Some d
           \<and> SelectAtIndex (item_class (heap s ! a)) d s1 = (Inr (Some a), s2)
           \<and> cache s2 = cache s1 \<and> length (heap s2) = length (heap s1)"
proof -
  let ?dc = "item_class (heap s ! a)"
  from fresh ok have new: "Add_new ?dc a commit s = (Inr (), s1)" by simp
  from new a obtain t b vs evs where
    t: "tables s (tablename ?dc) = Some t" and b: "cache s (dc_name ?dc) = Some b"
    and uniq: "IntV (int (length (rows t))) \<notin> set (map hd (rows t))"
    and h1: "heap s1 = (heap s)[a := (heap s ! a)\<lparr>idict := (idict (heap s ! a))(''dbid'' \<mapsto> IntV (int (length (rows t))))\<rparr>]"
    and c1: "cache s1 = (cache s)(dc_name ?dc \<mapsto> b(IntV (int (length (rows t))) \<mapsto> a))"
    and t1: "tables s1 = (tables s)(tablename ?dc \<mapsto> t\<lparr>rows := rows t @ [IntV (int (length (rows t))) # vs]\<rparr>)"
    by (rule Add_new_Inr)
  let ?n = "IntV (int (length (rows t)))"
  let ?t1 = "t\<lparr>rows := rows t @ [?n # vs]\<rparr>"
  let ?s2 = "s1\<lparr>trace := trace s1 @ [Execute (select_dbid_cmd (tablename ?dc)) [?n]]\<rparr>"
  have d: "idict (heap s1 ! a) ''dbid'' = Some ?n" using h1 a by simp
  have f: "filter (\<lambda>r. hd r = ?n \<and> ?n \<noteq> NoneV) (rows ?t1) = [?n # vs]"
    using uniq by (auto simp: filter_empty_conv image_iff)
  have sel: "select_dbid (tablename ?dc) ?n ?s2 = (Inr [as_row ?t1 (?n # vs)], ?s2)"
    using t1 f by (simp add: select_dbid_def)
  have key: "map_of (as_row ?t1 (?n # vs)) ''dbid'' = Some ?n"
    by (simp add: as_row_def)
  have pr: "ProcessRow ?dc (as_row ?t1 (?n # vs)) ?s2
        = (Inr a, ?s2\<lparr>heap := (heap ?s2)[a := CopyRowToData ?dc (as_row ?t1 (?n # vs)) (heap ?s2 ! a)]\<rparr>)"
    by (rule ProcessRow_hit [where b = "b(?n \<mapsto> a)", OF key]) (simp_all add: c1)
  have "SelectAtIndex ?dc ?n s1
      = (Inr (Some a), ?s2\<lparr>heap := (heap ?s2)[a := CopyRowToData ?dc (as_row ?t1 (?n # vs)) (heap ?s2 ! a)]\<rparr>)"
    by (simp add: SelectAtIndex_def andthen_def log_def sel pr succeed_def)
  with d show ?thesis by simp
qed

text \<open>
  C1. \<^verbatim>\<open>ProcessRow\<close> on a row whose key is in the bucket of the kind returns the
  cached object and changes nothing but that object, which receives the row through
  \<^verbatim>\<open>CopyRowToData\<close>; on a row whose key is not in the bucket it returns a new object
  (an address not allocated before), populated from the row, and enters it into the bucket
  under the key. \<^verbatim>\<open>CopyRowToData\<close> gives every column of the row to the attribute of
  that name, except the fields it forwards to a reference object. After \<^verbatim>\<open>Add\<close>
  has returned for a fresh item, \<^verbatim>\<open>SelectAtIndex\<close> on the item's key returns the
  item itself and allocates nothing.
\<close>

theorem identity_map:
  "(map_of r ''dbid'' = Some d \<and> cache s (dc_name dc) = Some b \<and> b d = Some a \<longrightarrow>
      ProcessRow dc r s = (Inr a, s\<lparr>heap := (heap s)[a := CopyRowToData dc r (heap s ! a)]\<rparr>))
   \<and> (map_of r ''dbid'' = Some d \<and> cache s (dc_name dc) = Some b \<and> b d = None \<longrightarrow>
      ProcessRow dc r s
        = (Inr (length (heap s)),
           s\<lparr>heap := heap s @ [CopyRowToData dc r (construct dc)],
             cache := (cache s)(dc_name dc \<mapsto> b(d \<mapsto> length (heap s)))\<rparr>))
   \<and> idict (CopyRowToData dc r i) c
        = (case map_of r c of
             None \<Rightarrow> idict i c
           | Some v \<Rightarrow> if reference_field dc i c then idict i c else Some v)
   \<and> (a < length (heap s) \<and> \<not> has_key (heap s ! a) \<and> Add a commit s = (Inr (), s1) \<longrightarrow>
        (\<exists>k s2. idict (heap s1 ! a) ''dbid'' = Some k
           \<and> SelectAtIndex (item_class (heap s ! a)) k s1 = (Inr (Some a), s2)
           \<and> cache s2 = cache s1 \<and> length (heap s2) = length (heap s1)))"
proof (intro conjI impI)
  assume "map_of r ''dbid'' = Some d \<and> cache s (dc_name dc) = Some b \<and> b d = Some a"
  then show "ProcessRow dc r s = (Inr a, s\<lparr>heap := (heap s)[a := CopyRowToData dc r (heap s ! a)]\<rparr>)"
    by (simp add: ProcessRow_hit)
next
  assume "map_of r ''dbid'' = Some d \<and> cache s (dc_name dc) = Some b \<and> b d = None"
  then show "ProcessRow dc r s
        = (Inr (length (heap s)),
           s\<lparr>heap := heap s @ [CopyRowToData dc r (construct dc)],
             cache := (cache s)(dc_name dc \<mapsto> b(d \<mapsto> length (heap s)))\<rparr>)"
    by (simp add: ProcessRow_miss)
next
  show "idict (CopyRowToData dc r i) c
        = (case map_of r c of
             None \<Rightarrow> idict i c
           | Some v \<Rightarrow> if reference_field dc i c then idict i c else Some v)"
    by (rule CopyRowToData_fields)
next
  assume "a < length (heap s) \<and> \<not> has_key (heap s ! a) \<and> Add a commit s = (Inr (), s1)"
  then show "\<exists>k s2. idict (heap s1 ! a) ''dbid'' = Some k
           \<and> SelectAtIndex (item_class (heap s ! a)) k s1 = (Inr (Some a), s2)
           \<and> cache s2 = cache s1 \<and> length (heap s2) = length (heap s1)"
    using Add_then_SelectAtIndex by blast
qed

text \<open>
  A cached key, a key that is not cached, and a read after \<^verbatim>\<open>Add\<close>, on a store with
  two objects.
\<close>

theorem identity_map_witness:
  "fst (ProcessRow person [(''dbid'', IntV 0), (''name'', TextV ''zoe'')] (snd (Add 0 True pair_store)))
     = Inr 0
   \<and> idict (heap (snd (ProcessRow person [(''dbid'', IntV 0), (''name'', TextV ''zoe'')]
                          (snd (Add 0 True pair_store)))) ! 0) ''name''
     = Some (TextV ''zoe'')
   \<and> fst (ProcessRow person [(''dbid'', IntV 7), (''name'', TextV ''zoe'')] pair_store) = Inr 2
   \<and> (\<exists>k s2. idict (heap (snd (Add 0 True pair_store)) ! 0) ''dbid'' = Some k
         \<and> SelectAtIndex person k (snd (Add 0 True pair_store)) = (Inr (Some 0), s2))"
proof -
  let ?s1 = "snd (Add 0 True pair_store)"
  let ?hit = "[(''dbid'', IntV 0), (''name'', TextV ''zoe'')]"
  let ?miss = "[(''dbid'', IntV 7), (''name'', TextV ''zoe'')]"
  have c1: "cache ?s1 (dc_name person) = Some [IntV 0 \<mapsto> 0]"
    by (simp add: pair_store_def fixture_defs has_key_def Add_new_def prim_defs
        column_value_def adapt_def insert_placeholders_def)
  have c0: "cache pair_store (dc_name person) = Some Map.empty"
    by (simp add: pair_store_def fixture_defs)
  have ok: "Add 0 True pair_store = (Inr (), ?s1)"
    by (simp add: pair_store_def fixture_defs has_key_def Add_new_def prim_defs
        column_value_def adapt_def insert_placeholders_def)
  have pre: "0 < length (heap pair_store)" "\<not> has_key (heap pair_store ! 0)"
    "item_class (heap pair_store ! 0) = person" "length (heap pair_store) = 2"
    by (simp_all add: pair_store_def fixture_defs has_key_def)
  have nr: "\<not> reference_field person (heap ?s1 ! 0) ''name''"
    by (simp add: reference_field_def pair_store_def fixture_defs has_key_def Add_new_def
        prim_defs column_value_def adapt_def insert_placeholders_def)
  note hit = identity_map [of ?hit "IntV 0" ?s1 person "[IntV 0 \<mapsto> 0]" 0 "heap ?s1 ! 0" "''name''"]
  note miss = identity_map [of ?miss "IntV 7" pair_store person Map.empty]
  note sel = identity_map [of _ _ pair_store _ _ 0 _ _ True ?s1]
  from hit c1 have 1: "ProcessRow person ?hit ?s1
      = (Inr 0, ?s1\<lparr>heap := (heap ?s1)[0 := CopyRowToData person ?hit (heap ?s1 ! 0)]\<rparr>)"
    by simp
  from hit nr have 2: "idict (CopyRowToData person ?hit (heap ?s1 ! 0)) ''name'' = Some (TextV ''zoe'')"
    by simp
  have l1: "0 < length (heap ?s1)"
    by (simp add: pair_store_def fixture_defs has_key_def Add_new_def prim_defs
        column_value_def adapt_def insert_placeholders_def)
  from miss c0 pre have 3: "fst (ProcessRow person ?miss pair_store) = Inr 2" by simp
  from sel pre ok have 4: "\<exists>k s2. idict (heap ?s1 ! 0) ''dbid'' = Some k
         \<and> SelectAtIndex person k ?s1 = (Inr (Some 0), s2)"
    by fastforce
  from 1 2 3 4 l1 show ?thesis by simp
qed

subsection \<open>Add\<close>


lemma update_lists_from_appends:
  "(\<And>k. P (ListUpdate a k)) \<Longrightarrow> \<exists>evs. trace (snd (update_lists_from a k oks s)) = trace s @ evs \<and> list_all P evs"
proof (induction oks arbitrary: k s)
  case Nil
  then show ?case by simp
next
  case (Cons ok oks)
  from Cons.IH [OF Cons.prems, of "Suc k" "s\<lparr>trace := trace s @ [ListUpdate a k]\<rparr>"]
  obtain evs where "trace (snd (update_lists_from a (Suc k) oks (s\<lparr>trace := trace s @ [ListUpdate a k]\<rparr>)))
      = trace s @ ListUpdate a k # evs" "list_all P evs" by auto
  with Cons.prems show ?case by (cases ok) (auto simp: log_def)
qed

lemma appends_update_lists: "(\<And>k. P (ListUpdate a k)) \<Longrightarrow> appends P (update_lists a)"
  by (rule appendsI) (simp add: update_lists_def update_lists_from_appends)

lemma appends_more: "appends P (print_line w)" "appends P (update_list_of a cs d)"
  by (auto simp: appends_def prim_defs split: sum.splits)







lemma andthen_Inr_eq: "m s = (Inr x, s1) \<Longrightarrow> andthen m f s = f x s1"
  by (simp add: andthen_def)








subsection \<open>AddList\<close>

lemma keeps_more:
  "keeps heap (prepare_insert T n)" "keeps cache (prepare_insert T n)" "keeps tables (prepare_insert T n)"
  "keeps heap (prepare_update T ns)" "keeps cache (prepare_update T ns)" "keeps tables (prepare_update T ns)"
  by (auto simp: keeps_def prim_defs split: option.splits)

lemma keeps_if: "keeps f m1 \<Longrightarrow> keeps f m2 \<Longrightarrow> keeps f (if b then m1 else m2)"
  by simp

lemma appends_if: "appends P m1 \<Longrightarrow> appends P m2 \<Longrightarrow> appends P (if b then m1 else m2)"
  by simp

lemma Update_row_keeps: "keeps heap (Update_row dc a d f c)" "keeps cache (Update_row dc a d f c)"
  unfolding Update_row_def
  by (intro keeps_if keeps_andthen keeps_heap_prims keeps_cache_prims keeps_lists)+

lemma Update_keyed_keeps:
  assumes "has_key (heap s ! a)"
  shows "heap (snd (Update a f c s)) = heap s" and "cache (snd (Update a f c s)) = cache s"
proof -
  from assms obtain d where "idict (heap s ! a) ''dbid'' = Some d"
    by (auto simp: has_key_def split: option.splits)
  then have "Update a f c s = Update_row (item_class (heap s ! a)) a d f c s" by simp
  then show "heap (snd (Update a f c s)) = heap s" and "cache (snd (Update a f c s)) = cache s"
    by (simp_all add: keepsD [OF Update_row_keeps(1)] keepsD [OF Update_row_keeps(2)])
qed

lemma appends_Update_row_no_batch: "appends (\<lambda>e. \<not> batch_statement e) (Update_row dc a d f c)"
  unfolding Update_row_def
  by (intro appends_if appends_andthen appends_more appends_silent appends_log appends_update_lists
        appends_commit_if)
     (simp_all add: batch_statement_def)

lemma redirect_keyed_split:
  "redirect_keyed xs c acc s =
     (case Update_each (filter (\<lambda>a. has_key (heap s ! a)) xs) c s of
        (Inl e, s1) \<Rightarrow> (Inl e, s1)
      | (Inr u, s1) \<Rightarrow> (Inr (acc @ filter (\<lambda>a. \<not> has_key (heap s ! a)) xs), s1))"
proof (induction xs arbitrary: acc s)
  case Nil
  show ?case by simp
next
  case (Cons a xs)
  show ?case
  proof (cases "has_key (heap s ! a)")
    case False
    with Cons.IH [of "acc @ [a]" s] show ?thesis by (simp split: prod.splits sum.splits)
  next
    case True
    obtain r s1 where u: "Update a False c s = (r, s1)" by (cases "Update a False c s")
    with Update_keyed_keeps(1) [OF True, of False c] have h: "heap s1 = heap s" by simp
    show ?thesis
    proof (cases r)
      case (Inl e)
      with True u show ?thesis by simp
    next
      case (Inr x)
      have 1: "redirect_keyed (a # xs) c acc s = redirect_keyed xs c acc s1"
        using True u Inr by (simp del: Update.simps)
      have 2: "Update_each (filter (\<lambda>a. has_key (heap s ! a)) (a # xs)) c s
                 = Update_each (filter (\<lambda>a. has_key (heap s ! a)) xs) c s1"
        using True u Inr by (simp del: Update.simps)
      have 3: "filter (\<lambda>a. \<not> has_key (heap s ! a)) (a # xs)
                 = filter (\<lambda>a. \<not> has_key (heap s ! a)) xs"
        using True by simp
      show ?thesis
        unfolding 1 2 3 using Cons.IH [of acc s1] by (simp only: h)
    qed
  qed
qed

lemma Update_each_keyed:
  assumes "\<forall>a\<in>set xs. has_key (heap s ! a)"
  shows "heap (snd (Update_each xs c s)) = heap s \<and> cache (snd (Update_each xs c s)) = cache s
         \<and> (\<exists>evs. trace (snd (Update_each xs c s)) = trace s @ evs
                   \<and> list_all (\<lambda>e. \<not> batch_statement e) evs)"
  using assms
proof (induction xs arbitrary: s)
  case Nil
  show ?case by simp
next
  case (Cons a xs)
  then have k: "has_key (heap s ! a)" by simp
  then obtain d where d: "idict (heap s ! a) ''dbid'' = Some d"
    by (auto simp: has_key_def split: option.splits)
  obtain r s1 where u: "Update a False c s = (r, s1)" by (cases "Update a False c s")
  from Update_keyed_keeps [OF k, of False c] u have h: "heap s1 = heap s" "cache s1 = cache s"
    by simp_all
  from d have ur: "Update a False c s = Update_row (item_class (heap s ! a)) a d False c s" by simp
  have "\<exists>evs. trace (snd (Update_row (item_class (heap s ! a)) a d False c s)) = trace s @ evs
          \<and> list_all (\<lambda>e. \<not> batch_statement e) evs"
    by (rule appendsD [OF appends_Update_row_no_batch])
  with ur u
  obtain evs1 where e1: "trace s1 = trace s @ evs1" "list_all (\<lambda>e. \<not> batch_statement e) evs1"
    by auto
  show ?case
  proof (cases r)
    case (Inl e)
    with u h e1 show ?thesis by auto
  next
    case (Inr x)
    from Cons.prems h have "\<forall>a\<in>set xs. has_key (heap s1 ! a)" by simp
    from Cons.IH [OF this] obtain evs2 where
      "heap (snd (Update_each xs c s1)) = heap s1" "cache (snd (Update_each xs c s1)) = cache s1"
      "trace (snd (Update_each xs c s1)) = trace s1 @ evs2" "list_all (\<lambda>e. \<not> batch_statement e) evs2"
      by auto
    with Inr u h e1 show ?thesis by auto
  qed
qed


lemma entry_step:
  assumes "andthen (set_dbid a v) (\<lambda>u. andthen (cache_store K v a) (\<lambda>u. attr_values a cols)) s
             = (Inr vs, s1)"
  obtains b where "cache s K = Some b"
    and "s1 = s\<lparr>heap := (heap s)[a := (heap s ! a)\<lparr>idict := (idict (heap s ! a))(''dbid'' \<mapsto> v)\<rparr>],
                cache := (cache s)(K \<mapsto> b(v \<mapsto> a))\<rparr>"
  using assms
  by (cases "cache s K")
     (auto simp: andthen_def set_dbid_def cache_store_def attr_values_def lift_def
        split: sum.splits)

lemma new_entries_Inr:
  assumes "new_entries K cols xs i acc s = (Inr entries, s2)"
    and "\<forall>x\<in>set xs. x < length (heap s)"
  shows "(\<exists>es. entries = acc @ es \<and> length es = length xs
              \<and> (\<forall>j<length xs. hd (es ! j) = IntV (int (i + j))))
     \<and> (tables s2 = tables s \<and> trace s2 = trace s \<and> length (heap s2) = length (heap s))
     \<and> (\<forall>x. x \<notin> set xs \<longrightarrow> heap s2 ! x = heap s ! x)
     \<and> (\<forall>b. cache s K = Some b \<longrightarrow>
           (\<exists>b'. cache s2 K = Some b'
              \<and> (\<forall>v. (\<forall>j<length xs. v \<noteq> IntV (int (i + j))) \<longrightarrow> b' v = b v)
              \<and> (\<forall>j<length xs. b' (IntV (int (i + j))) = Some (xs ! j))))
     \<and> (xs \<noteq> [] \<longrightarrow> cache s K \<noteq> None)
     \<and> (distinct xs \<longrightarrow>
          (\<forall>j<length xs. idict (heap s2 ! (xs ! j)) ''dbid'' = Some (IntV (int (i + j)))))"
  using assms
proof (induction xs arbitrary: i acc s)
  case Nil
  then show ?case by simp
next
  case (Cons a xs)
  let ?v = "IntV (int i)"
  let ?step = "andthen (set_dbid a ?v) (\<lambda>u. andthen (cache_store K ?v a) (\<lambda>u. attr_values a cols))"
  obtain r s1 where st: "?step s = (r, s1)" by (cases "?step s")
  from Cons.prems(1) st obtain vs where r: "r = Inr vs"
    and rest: "new_entries K cols xs (Suc i) (acc @ [?v # vs]) s1 = (Inr entries, s2)"
    by (cases r) auto
  from st r obtain b0 where b0: "cache s K = Some b0"
    and s1: "s1 = s\<lparr>heap := (heap s)[a := (heap s ! a)\<lparr>idict := (idict (heap s ! a))(''dbid'' \<mapsto> ?v)\<rparr>],
                cache := (cache s)(K \<mapsto> b0(?v \<mapsto> a))\<rparr>"
    by (auto elim: entry_step)
  from Cons.prems(2) have a: "a < length (heap s)" and xs: "\<forall>x\<in>set xs. x < length (heap s1)"
    by (simp_all add: s1)
  note IH = Cons.IH [OF rest xs]
  note ih1 = IH [THEN conjunct1]
  note ih2 = IH [THEN conjunct2, THEN conjunct1]
  note frame = IH [THEN conjunct2, THEN conjunct2, THEN conjunct1]
  note ih4 = IH [THEN conjunct2, THEN conjunct2, THEN conjunct2, THEN conjunct1]
  note ih6 = IH [THEN conjunct2, THEN conjunct2, THEN conjunct2, THEN conjunct2, THEN conjunct2]
  from ih1 obtain es where es: "entries = (acc @ [?v # vs]) @ es" "length es = length xs"
    "\<forall>j<length xs. hd (es ! j) = IntV (int (Suc i + j))"
    by blast
  have c1: "cache s1 K = Some (b0(?v \<mapsto> a))" by (simp add: s1)
  from ih4 [rule_format, OF c1] obtain b' where b': "cache s2 K = Some b'"
    "\<forall>v. (\<forall>j<length xs. v \<noteq> IntV (int (Suc i + j))) \<longrightarrow> b' v = (b0(?v \<mapsto> a)) v"
    "\<forall>j<length xs. b' (IntV (int (Suc i + j))) = Some (xs ! j)"
    by blast
  have P1: "\<exists>es'. entries = acc @ es' \<and> length es' = length (a # xs)
              \<and> (\<forall>j<length (a # xs). hd (es' ! j) = IntV (int (i + j)))"
  proof (intro exI conjI allI impI)
    show "entries = acc @ ((?v # vs) # es)" using es(1) by simp
    show "length ((?v # vs) # es) = length (a # xs)" using es(2) by simp
    fix j assume "j < length (a # xs)"
    then show "hd (((?v # vs) # es) ! j) = IntV (int (i + j))"
      using es(3) by (cases j) simp_all
  qed
  have P2: "tables s2 = tables s \<and> trace s2 = trace s \<and> length (heap s2) = length (heap s)"
    using ih2 by (simp add: s1)
  have P3: "\<forall>x. x \<notin> set (a # xs) \<longrightarrow> heap s2 ! x = heap s ! x"
    using frame by (simp add: s1)
  have P4: "\<forall>b. cache s K = Some b \<longrightarrow>
           (\<exists>b''. cache s2 K = Some b''
              \<and> (\<forall>v. (\<forall>j<length (a # xs). v \<noteq> IntV (int (i + j))) \<longrightarrow> b'' v = b v)
              \<and> (\<forall>j<length (a # xs). b'' (IntV (int (i + j))) = Some ((a # xs) ! j)))"
  proof (intro allI impI)
    fix b assume "cache s K = Some b"
    with b0 have bb: "b = b0" by simp
    have A: "\<forall>v. (\<forall>j<length (a # xs). v \<noteq> IntV (int (i + j))) \<longrightarrow> b' v = b v"
    proof (intro allI impI)
      fix v assume h: "\<forall>j<length (a # xs). v \<noteq> IntV (int (i + j))"
      from h [rule_format, of 0] have v0: "v \<noteq> ?v" by simp
      have "\<forall>j<length xs. v \<noteq> IntV (int (Suc i + j))"
      proof (intro allI impI)
        fix j assume "j < length xs"
        with h [rule_format, of "Suc j"] show "v \<noteq> IntV (int (Suc i + j))" by simp
      qed
      with b'(2) have "b' v = (b0(?v \<mapsto> a)) v" by blast
      with v0 bb show "b' v = b v" by simp
    qed
    have B: "\<forall>j<length (a # xs). b' (IntV (int (i + j))) = Some ((a # xs) ! j)"
    proof (intro allI impI)
      fix j assume j: "j < length (a # xs)"
      show "b' (IntV (int (i + j))) = Some ((a # xs) ! j)"
      proof (cases j)
        case 0
        have "\<forall>k<length xs. ?v \<noteq> IntV (int (Suc i + k))" by simp
        with b'(2) have "b' ?v = (b0(?v \<mapsto> a)) ?v" by blast
        with 0 show ?thesis by simp
      next
        case (Suc k)
        with j b'(3) [rule_format, of k] show ?thesis by simp
      qed
    qed
    from b'(1) A B
    show "\<exists>b''. cache s2 K = Some b''
              \<and> (\<forall>v. (\<forall>j<length (a # xs). v \<noteq> IntV (int (i + j))) \<longrightarrow> b'' v = b v)
              \<and> (\<forall>j<length (a # xs). b'' (IntV (int (i + j))) = Some ((a # xs) ! j))"
      by blast
  qed
  have P5: "a # xs \<noteq> [] \<longrightarrow> cache s K \<noteq> None" using b0 by simp
  have P6: "distinct (a # xs) \<longrightarrow>
          (\<forall>j<length (a # xs). idict (heap s2 ! ((a # xs) ! j)) ''dbid'' = Some (IntV (int (i + j))))"
  proof (intro impI allI)
    fix j assume d: "distinct (a # xs)" and j: "j < length (a # xs)"
    show "idict (heap s2 ! ((a # xs) ! j)) ''dbid'' = Some (IntV (int (i + j)))"
    proof (cases j)
      case 0
      from d have "a \<notin> set xs" by simp
      with frame have "heap s2 ! a = heap s1 ! a" by blast
      with 0 a show ?thesis by (simp add: s1)
    next
      case (Suc k)
      from d have "distinct xs" by simp
      from ih6 [THEN mp, OF this]
      have "\<forall>j<length xs. idict (heap s2 ! (xs ! j)) ''dbid'' = Some (IntV (int (Suc i + j)))" .
      with Suc j show ?thesis by simp
    qed
  qed
  show ?case
    by (rule conjI [OF P1 conjI [OF P2 conjI [OF P3 conjI [OF P4 conjI [OF P5 P6]]]]])
qed

lemma insert_rows_Inr:
  assumes "insert_rows T n es s = (Inr u, s')" and "tables s T = Some t"
  shows "tables s' = (tables s)(T \<mapsto> t\<lparr>rows := rows t @ es\<rparr>)
         \<and> heap s' = heap s \<and> cache s' = cache s \<and> trace s' = trace s"
  using assms
proof (induction es arbitrary: s t)
  case Nil
  then have 1: "s' = s" by simp
  have 2: "t\<lparr>rows := rows t @ []\<rparr> = t" by simp
  have 3: "(tables s)(T \<mapsto> t) = tables s"
    using Nil.prems(2) by (rule fun_upd_idem)
  show ?case unfolding 1 2 3 by simp
next
  case (Cons e es)
  obtain r s1 where st: "insert_row T n e s = (r, s1)" by (cases "insert_row T n e s")
  with Cons.prems(1) have r: "r = Inr ()" and rest: "insert_rows T n es s1 = (Inr u, s')"
    by (cases r; simp)+
  from st r Cons.prems(2) have s1: "s1 = s\<lparr>tables := (tables s)(T \<mapsto> t\<lparr>rows := rows t @ [e]\<rparr>)\<rparr>"
    by (auto simp: insert_row_def split: if_splits)
  have t1: "tables s1 T = Some (t\<lparr>rows := rows t @ [e]\<rparr>)" by (simp add: s1)
  from Cons.IH [OF rest t1] show ?case by (auto simp: s1)
qed

lemma add_lists_from_events:
  "\<exists>evs. snd (add_lists_from a k oks s) = s\<lparr>trace := trace s @ evs\<rparr>
          \<and> list_all (\<lambda>e. \<not> statement e) evs"
proof (induction oks arbitrary: k s)
  case Nil
  show ?case by (rule exI [of _ "[]"]) simp
next
  case (Cons ok oks)
  from Cons.IH [of "Suc k" "s\<lparr>trace := trace s @ [ListAdd a k]\<rparr>"]
  obtain evs where
    "snd (add_lists_from a (Suc k) oks (s\<lparr>trace := trace s @ [ListAdd a k]\<rparr>))
       = s\<lparr>trace := trace s @ ListAdd a k # evs\<rparr>" "list_all (\<lambda>e. \<not> statement e) evs"
    by auto
  then show ?case
    by (cases ok) (auto simp: log_def statement_def intro: exI [of _ "ListAdd a k # evs"]
        exI [of _ "[ListAdd a k]"])
qed

lemma add_lists_each_events:
  "\<exists>evs. snd (add_lists_each xs s) = s\<lparr>trace := trace s @ evs\<rparr>
          \<and> list_all (\<lambda>e. \<not> statement e) evs"
proof (induction xs arbitrary: s)
  case Nil
  show ?case by (rule exI [of _ "[]"]) simp
next
  case (Cons a xs)
  from add_lists_from_events [of a 0 "lists (heap s ! a)" s]
  obtain evs1 where 1: "snd (add_lists a s) = s\<lparr>trace := trace s @ evs1\<rparr>"
    "list_all (\<lambda>e. \<not> statement e) evs1"
    by (auto simp: add_lists_def)
  obtain r s1 where st: "add_lists a s = (r, s1)" by (cases "add_lists a s")
  with 1 have s1: "s1 = s\<lparr>trace := trace s @ evs1\<rparr>" by simp
  show ?case
  proof (cases r)
    case (Inl e)
    with st s1 1(2) show ?thesis by auto
  next
    case (Inr x)
    from Cons.IH [of s1] obtain evs2 where
      2: "snd (add_lists_each xs s1) = s1\<lparr>trace := trace s1 @ evs2\<rparr>"
      "list_all (\<lambda>e. \<not> statement e) evs2" by auto
    with Inr st s1 1(2) show ?thesis
      by (auto intro!: exI [of _ "evs1 @ evs2"])
  qed
qed

text \<open>
  C6. When \<^verbatim>\<open>AddList\<close> returns on a non-empty list of allocated objects: the items
  that have a key were handed to \<^verbatim>\<open>Update\<close> one by one, in list order, and that
  executed no \<^verbatim>\<open>executemany\<close>; then exactly one \<^verbatim>\<open>executemany\<close> of the insert
  statement was executed, followed by no further statement; its rows are one per fresh
  item, the row at position \<open>i\<close> starting with the key \<open>i\<close>; the cache of the kind maps
  key \<open>i\<close> to the fresh item at position \<open>i\<close>; when the fresh items are distinct
  objects each carries its key; and the table has gained exactly those rows.
\<close>

theorem AddList_batches:
  assumes ne: "i_list \<noteq> []"
    and alloc: "\<forall>a\<in>set i_list. a < length (heap s)"
    and dc: "dc = item_class (heap s ! (i_list ! 0))"
    and keyed: "keyed = filter (\<lambda>a. has_key (heap s ! a)) i_list"
    and fresh: "fresh = filter (\<lambda>a. \<not> has_key (heap s ! a)) i_list"
    and ok: "AddList i_list commit s = (Inr (), s')"
  shows "\<exists>s1 evs0 entries evs t.
           Update_each keyed commit s = (Inr (), s1)
         \<and> trace s1 = trace s @ evs0 \<and> list_all (\<lambda>e. \<not> batch_statement e) evs0
         \<and> trace s' = trace s1 @ ExecuteMany (insert_cmd (tablename dc) (sql_columns dc)) entries # evs
         \<and> list_all (\<lambda>e. \<not> statement e) evs
         \<and> length entries = length fresh
         \<and> (\<forall>i<length fresh. hd (entries ! i) = IntV (int i))
         \<and> (\<forall>i<length fresh. \<exists>b. cache s' (dc_name dc) = Some b \<and> b (IntV (int i)) = Some (fresh ! i))
         \<and> (distinct fresh \<longrightarrow>
               (\<forall>i<length fresh. idict (heap s' ! (fresh ! i)) ''dbid'' = Some (IntV (int i))))
         \<and> tables s1 (tablename dc) = Some t
         \<and> tables s' (tablename dc) = Some (t\<lparr>rows := rows t @ entries\<rparr>)"
proof -
  let ?T = "tablename dc" and ?K = "dc_name dc" and ?cols = "sql_columns dc"
  let ?cmd = "insert_cmd ?T ?cols" and ?n = "insert_placeholders ?cols"
  from ne ok dc have b: "AddList_batch dc i_list commit s = (Inr (), s')"
    by (simp add: AddList_def)
  from b obtain item_list s1 where
    1: "redirect_keyed i_list commit [] s = (Inr item_list, s1)"
    and r1: "andthen (new_entries ?K ?cols item_list 0 []) (\<lambda>entries.
       andthen (log (ExecuteMany ?cmd entries)) (\<lambda>u.
       andthen (prepare_insert ?T ?n) (\<lambda>u.
       andthen (insert_rows ?T ?n entries) (\<lambda>u.
       andthen (add_lists_each item_list) (\<lambda>u.
       commit_if commit))))) s1 = (Inr (), s')"
    unfolding AddList_batch_def by (rule andthen_Inr)
  from 1 have u: "Update_each keyed commit s = (Inr (), s1)" and il: "item_list = fresh"
    unfolding redirect_keyed_split keyed fresh
    by (auto split: prod.splits sum.splits)
  have "\<forall>a\<in>set keyed. has_key (heap s ! a)" by (simp add: keyed)
  from Update_each_keyed [OF this, of commit] u obtain evs0 where
    h1: "heap s1 = heap s" and c1: "cache s1 = cache s"
    and t0: "trace s1 = trace s @ evs0" "list_all (\<lambda>e. \<not> batch_statement e) evs0"
    by auto
  from r1 obtain entries s2 where
    2: "new_entries ?K ?cols fresh 0 [] s1 = (Inr entries, s2)"
    and r2: "andthen (log (ExecuteMany ?cmd entries)) (\<lambda>u.
       andthen (prepare_insert ?T ?n) (\<lambda>u.
       andthen (insert_rows ?T ?n entries) (\<lambda>u.
       andthen (add_lists_each fresh) (\<lambda>u.
       commit_if commit)))) s2 = (Inr (), s')"
    unfolding il by (rule andthen_Inr)
  have al: "\<forall>x\<in>set fresh. x < length (heap s1)" using alloc by (simp add: fresh h1)
  note ne2 = new_entries_Inr [OF 2 al]
  from ne2 [THEN conjunct1] have len: "length entries = length fresh"
    and keys: "\<forall>i<length fresh. hd (entries ! i) = IntV (int i)"
    by auto
  from ne2 [THEN conjunct2, THEN conjunct1] have tt2: "tables s2 = tables s1" "trace s2 = trace s1"
    by simp_all
  note cache2 = ne2 [THEN conjunct2, THEN conjunct2, THEN conjunct2, THEN conjunct1]
  note bucket = ne2 [THEN conjunct2, THEN conjunct2, THEN conjunct2, THEN conjunct2, THEN conjunct1]
  note dbids = ne2 [THEN conjunct2, THEN conjunct2, THEN conjunct2, THEN conjunct2, THEN conjunct2]
  let ?s3 = "s2\<lparr>trace := trace s2 @ [ExecuteMany ?cmd entries]\<rparr>"
  from r2 have r3: "andthen (prepare_insert ?T ?n) (\<lambda>u.
       andthen (insert_rows ?T ?n entries) (\<lambda>u.
       andthen (add_lists_each fresh) (\<lambda>u.
       commit_if commit))) ?s3 = (Inr (), s')"
    by (simp add: andthen_def log_def)
  from r3 obtain x4 s4 where 4: "prepare_insert ?T ?n ?s3 = (Inr x4, s4)"
    and r4: "andthen (insert_rows ?T ?n entries) (\<lambda>u.
       andthen (add_lists_each fresh) (\<lambda>u. commit_if commit)) s4 = (Inr (), s')"
    by (rule andthen_Inr)
  from 4 obtain t where t: "tables s2 ?T = Some t" and s4: "s4 = ?s3"
    by (auto simp: prepare_insert_def split: option.splits if_splits)
  from r4 obtain x5 s5 where 5: "insert_rows ?T ?n entries ?s3 = (Inr x5, s5)"
    and r5: "andthen (add_lists_each fresh) (\<lambda>u. commit_if commit) s5 = (Inr (), s')"
    unfolding s4 by (rule andthen_Inr)
  have t3: "tables ?s3 ?T = Some t" using t by simp
  from insert_rows_Inr [OF 5 t3] have s5: "tables s5 = (tables s2)(?T \<mapsto> t\<lparr>rows := rows t @ entries\<rparr>)"
    "heap s5 = heap s2" "cache s5 = cache s2" "trace s5 = trace s2 @ [ExecuteMany ?cmd entries]"
    by simp_all
  from r5 obtain x6 s6 where 6: "add_lists_each fresh s5 = (Inr x6, s6)"
    and r6: "commit_if commit s6 = (Inr (), s')"
    by (rule andthen_Inr)
  from add_lists_each_events [of fresh s5] 6 obtain evs1 where
    s6: "s6 = s5\<lparr>trace := trace s5 @ evs1\<rparr>" and e1: "list_all (\<lambda>e. \<not> statement e) evs1"
    by auto
  from r6 have s': "s' = s6\<lparr>trace := trace s6 @ (if commit then [Commit] else [])\<rparr>"
    by (auto simp: commit_if_def log_def succeed_def split: if_splits)
  have tr: "trace s' = trace s1 @ ExecuteMany ?cmd entries # (evs1 @ (if commit then [Commit] else []))"
    by (simp add: s' s6 s5 tt2)
  have ev: "list_all (\<lambda>e. \<not> statement e) (evs1 @ (if commit then [Commit] else []))"
    using e1 by (simp add: statement_def)
  have hp: "heap s' = heap s2" and ca: "cache s' = cache s2"
    and tb: "tables s' ?T = Some (t\<lparr>rows := rows t @ entries\<rparr>)"
    by (simp_all add: s' s6 s5)
  have cached: "\<forall>i<length fresh. \<exists>b. cache s' ?K = Some b \<and> b (IntV (int i)) = Some (fresh ! i)"
  proof (intro allI impI)
    fix i assume i: "i < length fresh"
    then have "fresh \<noteq> []" by auto
    with bucket obtain b0 where "cache s1 ?K = Some b0" by auto
    with cache2 obtain b' where "cache s2 ?K = Some b'"
      and "\<forall>j<length fresh. b' (IntV (int (0 + j))) = Some (fresh ! j)"
      by blast
    with i show "\<exists>b. cache s' ?K = Some b \<and> b (IntV (int i)) = Some (fresh ! i)"
      by (auto simp: ca)
  qed
  have ids: "distinct fresh \<longrightarrow>
               (\<forall>i<length fresh. idict (heap s' ! (fresh ! i)) ''dbid'' = Some (IntV (int i)))"
    using dbids by (simp add: hp)
  have t1: "tables s1 ?T = Some t" using t by (simp add: tt2)
  from u t0 tr ev len keys cached ids t1 tb show ?thesis by blast
qed

text \<open>One stored person (key 5) and two fresh ones, in one list.\<close>

theorem AddList_batches_witness:
  "fst (AddList [0, 1, 2] True mixed_store) = Inr ()
   \<and> (\<exists>s1 evs0 entries evs t.
           Update_each [0] True mixed_store = (Inr (), s1)
         \<and> trace s1 = trace mixed_store @ evs0 \<and> list_all (\<lambda>e. \<not> batch_statement e) evs0
         \<and> trace (snd (AddList [0, 1, 2] True mixed_store))
             = trace s1 @ ExecuteMany ''insert into person_table values (?, ?, ?)'' entries # evs
         \<and> list_all (\<lambda>e. \<not> statement e) evs
         \<and> length entries = 2
         \<and> hd (entries ! 0) = IntV 0 \<and> hd (entries ! 1) = IntV 1
         \<and> idict (heap (snd (AddList [0, 1, 2] True mixed_store)) ! 1) ''dbid'' = Some (IntV 0)
         \<and> idict (heap (snd (AddList [0, 1, 2] True mixed_store)) ! 2) ''dbid'' = Some (IntV 1)
         \<and> tables s1 ''person_table'' = Some t
         \<and> tables (snd (AddList [0, 1, 2] True mixed_store)) ''person_table''
             = Some (t\<lparr>rows := rows t @ entries\<rparr>))"
proof -
  let ?s = mixed_store
  let ?s' = "snd (AddList [0, 1, 2] True mixed_store)"
  have f: "fst (AddList [0, 1, 2] True ?s) = Inr ()" by code_simp
  then have ok: "AddList [0, 1, 2] True ?s = (Inr (), ?s')" by (metis prod.collapse)
  have ne: "[0::nat, 1, 2] \<noteq> []" by simp
  have alloc: "\<forall>a\<in>set [0::nat, 1, 2]. a < length (heap ?s)"
    by (simp add: mixed_store_def fixture_defs)
  have dc: "person = item_class (heap ?s ! ([0, 1, 2] ! 0))"
    by (simp add: mixed_store_def fixture_defs)
  have keyed: "[0] = filter (\<lambda>a. has_key (heap ?s ! a)) [0, 1, 2]"
    by (simp add: mixed_store_def fixture_defs has_key_def)
  have fresh: "[1, 2] = filter (\<lambda>a. \<not> has_key (heap ?s ! a)) [0, 1, 2]"
    by (simp add: mixed_store_def fixture_defs has_key_def)
  have cmd: "insert_cmd (tablename person) (sql_columns person)
               = ''insert into person_table values (?, ?, ?)''"
    by (simp add: insert_cmd_def person_def)
  have T: "tablename person = ''person_table''" by (simp add: person_def)
  from AddList_batches [OF ne alloc dc keyed fresh ok]
  obtain s1 evs0 entries evs t where
    1: "Update_each [0] True ?s = (Inr (), s1)"
    and 2: "trace s1 = trace ?s @ evs0" "list_all (\<lambda>e. \<not> batch_statement e) evs0"
    and 3: "trace ?s' = trace s1 @ ExecuteMany (insert_cmd (tablename person) (sql_columns person)) entries # evs"
    and 4: "list_all (\<lambda>e. \<not> statement e) evs"
    and 5: "length entries = length [1::nat, 2]"
    and 6: "\<forall>i<length [1::nat, 2]. hd (entries ! i) = IntV (int i)"
    and 7: "distinct [1::nat, 2] \<longrightarrow>
               (\<forall>i<length [1::nat, 2]. idict (heap ?s' ! ([1, 2] ! i)) ''dbid'' = Some (IntV (int i)))"
    and 8: "tables s1 (tablename person) = Some t"
    and 9: "tables ?s' (tablename person) = Some (t\<lparr>rows := rows t @ entries\<rparr>)"
    by blast
  from 6 [rule_format, of 0] 6 [rule_format, of 1]
  have k: "hd (entries ! 0) = IntV 0" "hd (entries ! 1) = IntV 1" by simp_all
  from 7 have "\<forall>i<length [1::nat, 2]. idict (heap ?s' ! ([1, 2] ! i)) ''dbid'' = Some (IntV (int i))"
    by simp
  from this [rule_format, of 0] this [rule_format, of 1]
  have d: "idict (heap ?s' ! 1) ''dbid'' = Some (IntV 0)" "idict (heap ?s' ! 2) ''dbid'' = Some (IntV 1)"
    by simp_all
  from 5 have l: "length entries = 2" by simp
  note 3 = 3 [unfolded cmd] and 8 = 8 [unfolded T] and 9 = 9 [unfolded T]
  from f 1 2 3 4 l k d 8 9 show ?thesis by blast
qed

end
